theory Spec2Isabelle
  imports Main
begin

section \<open>Strings and decimal formatting\<close>

text \<open>
  A Python \<open>str\<close> is modelled as a \<open>string\<close> (a list of characters); \<open>len\<close> is
  \<open>length\<close>. Python integers used as counters start at 1 and only grow, so they are
  natural numbers.
\<close>

definition is_digit :: "char \<Rightarrow> bool" where
  "is_digit c = (c \<in> set ''0123456789'')"

definition digit_char :: "nat \<Rightarrow> char" where
  "digit_char d = ''0123456789'' ! d"

definition digit_val :: "char \<Rightarrow> nat" where
  "digit_val c = of_char c - 48"

text \<open>\<open>str(n)\<close> for a non-negative integer: its decimal digits, most significant first.\<close>

fun str_nat :: "nat \<Rightarrow> string" where
  "str_nat n = (if n < 10 then [digit_char n] else str_nat (n div 10) @ [digit_char (n mod 10)])"

declare str_nat.simps [simp del]

text \<open>The format specification \<open>{counter:02d}\<close>: decimal, padded with zeros to width 2.\<close>

definition fmt02 :: "nat \<Rightarrow> string" where
  "fmt02 n = (if n < 10 then CHR ''0'' # str_nat n else str_nat n)"

text \<open>Reading a digit string back; used to show that formatting is injective.\<close>

definition nat_of_str :: "string \<Rightarrow> nat" where
  "nat_of_str s = foldl (\<lambda>a c. 10 * a + digit_val c) 0 s"

section \<open>Paths: \<open>os.path\<close> on a POSIX system\<close>

text \<open>\<open>p[:i]\<close> and \<open>p[i:]\<close> for \<open>i = p.rfind('/') + 1\<close>.\<close>

definition head_part :: "string \<Rightarrow> string" where
  "head_part p = rev (dropWhile (\<lambda>c. c \<noteq> CHR ''/'') (rev p))"

definition basename :: "string \<Rightarrow> string" where
  "basename p = rev (takeWhile (\<lambda>c. c \<noteq> CHR ''/'') (rev p))"

definition rstrip_sep :: "string \<Rightarrow> string" where
  "rstrip_sep s = rev (dropWhile (\<lambda>c. c = CHR ''/'') (rev s))"

text \<open>
  \<open>dirname\<close>: the head, with trailing separators stripped unless the head consists of
  separators only.
\<close>

definition dirname :: "string \<Rightarrow> string" where
  "dirname p =
     (let head = head_part p
      in if head \<noteq> [] \<and> \<not> list_all (\<lambda>c. c = CHR ''/'') head then rstrip_sep head else head)"

text \<open>
  \<open>splitext\<close>: the extension starts at the last dot of the last component, provided
  some character of that component before the dot is not a dot.
\<close>

definition splitext :: "string \<Rightarrow> string \<times> string" where
  "splitext p =
     (let b = basename p;
          root = rev (tl (dropWhile (\<lambda>c. c \<noteq> CHR ''.'') (rev b)));
          ext = CHR ''.'' # rev (takeWhile (\<lambda>c. c \<noteq> CHR ''.'') (rev b))
      in if CHR ''.'' \<in> set b \<and> \<not> list_all (\<lambda>c. c = CHR ''.'') root
         then (head_part p @ root, ext) else (p, []))"

text \<open>\<open>join\<close> of two components.\<close>

definition join :: "string \<Rightarrow> string \<Rightarrow> string" where
  "join a b =
     (if b \<noteq> [] \<and> hd b = CHR ''/'' then b
      else if a = [] \<or> last a = CHR ''/'' then a @ b
      else a @ ''/'' @ b)"

text \<open>
  The directory state is the list of the paths that exist; \<open>os.path.exists\<close> is
  membership.
\<close>

definition path_exists :: "string list \<Rightarrow> string \<Rightarrow> bool" where
  "path_exists fs p = (p \<in> set fs)"

section \<open>Formatting is injective\<close>

lemma digit_val_digit_char: "d < 10 \<Longrightarrow> digit_val (digit_char d) = d"
proof -
  assume "d < 10"
  then consider "d = 0" | "d = 1" | "d = 2" | "d = 3" | "d = 4" | "d = 5" | "d = 6"
    | "d = 7" | "d = 8" | "d = 9"
    by atomize_elim arith
  then show ?thesis
    by cases (simp_all add: digit_val_def digit_char_def)
qed

lemma nat_of_str_snoc: "nat_of_str (s @ [c]) = 10 * nat_of_str s + digit_val c"
  by (simp add: nat_of_str_def)

lemma nat_of_str_str_nat: "nat_of_str (str_nat n) = n"
proof (induction n rule: str_nat.induct)
  case (1 n)
  show ?case
  proof (cases "n < 10")
    case True
    then show ?thesis
      by (simp add: str_nat.simps [of n] nat_of_str_def digit_val_digit_char)
  next
    case False
    then have "nat_of_str (str_nat n) = 10 * (n div 10) + n mod 10"
      using "1.IH" by (simp add: str_nat.simps [of n] nat_of_str_snoc digit_val_digit_char)
    then show ?thesis by simp
  qed
qed

lemma nat_of_str_zero_cons: "nat_of_str (CHR ''0'' # s) = nat_of_str s"
  by (simp add: nat_of_str_def digit_val_def)

lemma nat_of_str_fmt02: "nat_of_str (fmt02 n) = n"
  by (simp add: fmt02_def nat_of_str_zero_cons nat_of_str_str_nat)

lemma str_nat_inject: "str_nat a = str_nat b \<Longrightarrow> a = b"
  by (metis nat_of_str_str_nat)

lemma fmt02_inject: "fmt02 a = fmt02 b \<Longrightarrow> a = b"
  by (metis nat_of_str_fmt02)

lemma join_shape: "\<exists>pre. \<forall>k. join d (n @ CHR ''_'' # f k @ e) = pre @ f k @ e"
proof (cases "n \<noteq> [] \<and> hd n = CHR ''/''")
  case True
  then have "\<forall>k. join d (n @ CHR ''_'' # f k @ e) = (n @ ''_'') @ f k @ e"
    by (simp add: join_def)
  then show ?thesis by blast
next
  case False
  then have nohd: "\<And>k. \<not> ((n @ CHR ''_'' # f k @ e) \<noteq> [] \<and> hd (n @ CHR ''_'' # f k @ e) = CHR ''/'')"
    by (cases n) auto
  show ?thesis
  proof (cases "d = [] \<or> last d = CHR ''/''")
    case True
    then have "\<forall>k. join d (n @ CHR ''_'' # f k @ e) = (d @ n @ ''_'') @ f k @ e"
      using nohd unfolding join_def by auto
    then show ?thesis by blast
  next
    case False
    then have "\<forall>k. join d (n @ CHR ''_'' # f k @ e) = (d @ ''/'' @ n @ ''_'') @ f k @ e"
      using nohd unfolding join_def by auto
    then show ?thesis by blast
  qed
qed

lemma join_cand_inject:
  assumes "\<And>a b. f a = f b \<Longrightarrow> a = b"
    and "join d (n @ CHR ''_'' # f j @ e) = join d (n @ CHR ''_'' # f k @ e)"
  shows "j = k"
proof -
  obtain pre where pre: "\<forall>k. join d (n @ CHR ''_'' # f k @ e) = pre @ f k @ e"
    using join_shape by blast
  from assms(2) have "pre @ f j @ e = pre @ f k @ e"
    using pre by simp
  then have "f j = f k" by simp
  then show ?thesis by (rule assms(1))
qed

lemma finite_cands:
  assumes "\<And>j k. c j = c k \<Longrightarrow> j = k"
  shows "finite {k::nat. c k \<in> set fs}"
proof -
  have "inj c" using assms by (auto simp: inj_on_def)
  then have "finite (c -` set fs)" by (simp add: finite_vimageI)
  then show ?thesis by (simp add: vimage_def)
qed

lemma card_cands_less:
  assumes inj: "\<And>j k. c j = c k \<Longrightarrow> j = k" and mem: "c (n::nat) \<in> set fs"
  shows "card {k. Suc n \<le> k \<and> c k \<in> set fs} < card {k. n \<le> k \<and> c k \<in> set fs}"
proof (rule psubset_card_mono)
  have "{k. n \<le> k \<and> c k \<in> set fs} \<subseteq> {k. c k \<in> set fs}" by blast
  then show "finite {k. n \<le> k \<and> c k \<in> set fs}"
    using finite_cands [of c fs, OF inj] by (rule finite_subset)
  have "n \<in> {k. n \<le> k \<and> c k \<in> set fs}" and "n \<notin> {k. Suc n \<le> k \<and> c k \<in> set fs}"
    using mem by simp_all
  moreover have "{k. Suc n \<le> k \<and> c k \<in> set fs} \<subseteq> {k. n \<le> k \<and> c k \<in> set fs}"
    by auto
  ultimately show "{k. Suc n \<le> k \<and> c k \<in> set fs} \<subset> {k. n \<le> k \<and> c k \<in> set fs}"
    by blast
qed

section \<open>The unique-naming routine (\<open>word_to_pdf.get_unique_filename\<close>)\<close>

text \<open>
  The \<open>while True\<close> loop of \<open>get_unique_filename\<close>: try \<open>name_NN ext\<close> for the current
  counter and return the first candidate that does not exist.
\<close>

function unique_loop :: "string list \<Rightarrow> string \<Rightarrow> string \<Rightarrow> string \<Rightarrow> nat \<Rightarrow> string" where
  "unique_loop fs directory name ext counter =
     (let new_filename = name @ ''_'' @ fmt02 counter @ ext;
          new_path = join directory new_filename
      in if \<not> path_exists fs new_path then new_path
         else unique_loop fs directory name ext (counter + 1))"
  by pat_completeness auto
termination
proof (relation "measure (\<lambda>(fs, directory, name, ext, counter).
    card {k. counter \<le> k \<and> join directory (name @ ''_'' @ fmt02 k @ ext) \<in> set fs})")
  show "wf (measure (\<lambda>(fs, directory, name, ext, counter).
    card {k. counter \<le> k \<and> join directory (name @ ''_'' @ fmt02 k @ ext) \<in> set fs}))"
    by simp
next
  fix fs :: "string list" and directory name ext :: string and counter :: nat
    and x xa
  assume x: "x = name @ ''_'' @ fmt02 counter @ ext" and xa: "xa = join directory x"
    and ex: "\<not> \<not> path_exists fs xa"
  have inj: "\<And>j k. join directory (name @ CHR ''_'' # fmt02 j @ ext)
      = join directory (name @ CHR ''_'' # fmt02 k @ ext) \<Longrightarrow> j = k"
    by (rule join_cand_inject [of fmt02]) (auto dest: fmt02_inject)
  have mem: "join directory (name @ CHR ''_'' # fmt02 counter @ ext) \<in> set fs"
    using x xa ex by (simp add: path_exists_def)
  show "((fs, directory, name, ext, counter + 1), (fs, directory, name, ext, counter))
    \<in> measure (\<lambda>(fs, directory, name, ext, counter).
        card {k. counter \<le> k \<and> join directory (name @ ''_'' @ fmt02 k @ ext) \<in> set fs})"
    using card_cands_less [of "\<lambda>k. join directory (name @ CHR ''_'' # fmt02 k @ ext)" counter fs,
        OF inj mem]
    by simp
qed

declare unique_loop.simps [simp del]

definition get_unique_filename :: "string list \<Rightarrow> string \<Rightarrow> string" where
  "get_unique_filename fs base_path =
     (if \<not> path_exists fs base_path then base_path
      else let directory = dirname base_path;
               filename = basename base_path;
               (name, ext) = splitext filename
           in unique_loop fs directory name ext 1)"

section \<open>The inline duplicate loop of \<open>PID_RENAME.process_and_rename_document\<close>\<close>

text \<open>
  Lines 93 to 101 of \<open>PID_RENAME.py\<close>: the first candidate is \<open>project_id.pdf\<close>; while
  the candidate exists, the next one is \<open>project_id_counter.pdf\<close> with the counter
  written by \<open>str\<close>, without padding. \<open>folder / name\<close> is modelled by \<open>join\<close>.
\<close>

function rename_loop :: "string list \<Rightarrow> string \<Rightarrow> string \<Rightarrow> string \<Rightarrow> nat \<Rightarrow> string" where
  "rename_loop fs folder project_id new_path counter =
     (if path_exists fs new_path
      then rename_loop fs folder project_id
             (join folder (project_id @ ''_'' @ str_nat counter @ ''.pdf'')) (counter + 1)
      else new_path)"
  by pat_completeness auto
termination
proof (relation "measure (\<lambda>(fs, folder, project_id, new_path, counter).
    2 * card {k. counter \<le> k \<and> join folder (project_id @ ''_'' @ str_nat k @ ''.pdf'') \<in> set fs}
    + (if new_path \<in> set fs then 1 else 0))")
  show "wf (measure (\<lambda>(fs, folder, project_id, new_path, counter).
    2 * card {k. counter \<le> k \<and> join folder (project_id @ ''_'' @ str_nat k @ ''.pdf'') \<in> set fs}
    + (if new_path \<in> set fs then 1 else 0)))"
    by simp
next
  fix fs :: "string list" and folder project_id new_path :: string and counter :: nat
  assume ex: "path_exists fs new_path"
  let ?c = "\<lambda>k. join folder (project_id @ CHR ''_'' # str_nat k @ ''.pdf'')"
  have inj: "\<And>j k. ?c j = ?c k \<Longrightarrow> j = k"
    by (rule join_cand_inject [of str_nat]) (auto dest: str_nat_inject)
  have "2 * card {k. Suc counter \<le> k \<and> ?c k \<in> set fs} + (if ?c counter \<in> set fs then 1 else 0)
      < 2 * card {k. counter \<le> k \<and> ?c k \<in> set fs} + 1"
  proof (cases "?c counter \<in> set fs")
    case True
    then show ?thesis
      using card_cands_less [of ?c counter fs, OF inj] by simp
  next
    case False
    then have "{k. Suc counter \<le> k \<and> ?c k \<in> set fs} = {k. counter \<le> k \<and> ?c k \<in> set fs}"
      by (auto simp: Suc_le_eq order_le_less)
    with False show ?thesis by simp
  qed
  then show "((fs, folder, project_id,
        join folder (project_id @ ''_'' @ str_nat counter @ ''.pdf''), counter + 1),
      (fs, folder, project_id, new_path, counter))
    \<in> measure (\<lambda>(fs, folder, project_id, new_path, counter).
        2 * card {k. counter \<le> k \<and> join folder (project_id @ ''_'' @ str_nat k @ ''.pdf'') \<in> set fs}
        + (if new_path \<in> set fs then 1 else 0))"
    using ex by (simp add: path_exists_def)
qed

declare rename_loop.simps [simp del]

definition rename_target :: "string list \<Rightarrow> string \<Rightarrow> string \<Rightarrow> string" where
  "rename_target fs folder project_id =
     rename_loop fs folder project_id (join folder (project_id @ ''.pdf'')) 1"

text \<open>
  The candidate that the claim describes: the desired name with the counter, zero-padded
  to two digits, inserted before the extension.
\<close>

definition unique_candidate :: "string \<Rightarrow> nat \<Rightarrow> string" where
  "unique_candidate f k =
     join (dirname f)
       (fst (splitext (basename f)) @ ''_'' @ fmt02 k @ snd (splitext (basename f)))"

section \<open>Properties of the unique-naming routines\<close>

lemma unique_loop_free: "\<not> path_exists fs (unique_loop fs d n e c)"
proof (induction fs d n e c rule: unique_loop.induct)
  case (1 fs directory name ext counter)
  show ?case
  proof (cases "path_exists fs (join directory (name @ ''_'' @ fmt02 counter @ ext))")
    case True
    then show ?thesis
      using "1.IH" by (simp add: unique_loop.simps [of fs directory name ext counter])
  next
    case False
    then show ?thesis
      by (simp add: unique_loop.simps [of fs directory name ext counter])
  qed
qed

lemma unique_loop_least:
  "\<exists>k\<ge>c. unique_loop fs d n e c = join d (n @ ''_'' @ fmt02 k @ e)
     \<and> (\<forall>j. c \<le> j \<and> j < k \<longrightarrow> path_exists fs (join d (n @ ''_'' @ fmt02 j @ e)))"
proof (induction fs d n e c rule: unique_loop.induct)
  case (1 fs directory name ext counter)
  let ?cand = "\<lambda>j. join directory (name @ ''_'' @ fmt02 j @ ext)"
  show ?case
  proof (cases "path_exists fs (?cand counter)")
    case False
    then have "unique_loop fs directory name ext counter = ?cand counter"
      by (simp add: unique_loop.simps [of fs directory name ext counter])
    then show ?thesis by auto
  next
    case True
    then have eq: "unique_loop fs directory name ext counter
        = unique_loop fs directory name ext (counter + 1)"
      by (simp add: unique_loop.simps [of fs directory name ext counter])
    from "1.IH" [OF refl refl] True
    obtain k where k: "counter + 1 \<le> k"
      "unique_loop fs directory name ext (counter + 1) = ?cand k"
      "\<forall>j. counter + 1 \<le> j \<and> j < k \<longrightarrow> path_exists fs (?cand j)"
      by auto
    have "\<forall>j. counter \<le> j \<and> j < k \<longrightarrow> path_exists fs (?cand j)"
    proof (intro allI impI)
      fix j assume j: "counter \<le> j \<and> j < k"
      show "path_exists fs (?cand j)"
      proof (cases "j = counter")
        case True
        with \<open>path_exists fs (?cand counter)\<close> show ?thesis by simp
      next
        case False
        with j have "counter + 1 \<le> j \<and> j < k" by simp
        with k(3) show ?thesis by blast
      qed
    qed
    with k(1,2) eq show ?thesis
      by (intro exI [of _ k]) simp
  qed
qed

lemma get_unique_filename_free: "\<not> path_exists fs (get_unique_filename fs f)"
  by (simp add: get_unique_filename_def unique_loop_free split: prod.split)

lemma length_str_nat_digit: "k < 10 \<Longrightarrow> length (str_nat k) = 1"
  by (simp add: str_nat.simps [of k])

lemma length_fmt02_two: "k < 100 \<Longrightarrow> length (fmt02 k) = 2"
proof (cases "k < 10")
  case True
  then show ?thesis by (simp add: fmt02_def length_str_nat_digit)
next
  case False
  assume "k < 100"
  with False have "k div 10 < 10" by simp
  with False show ?thesis
    by (simp add: fmt02_def str_nat.simps [of k] length_str_nat_digit)
qed

lemma rename_loop_free: "\<not> path_exists fs (rename_loop fs folder pid p c)"
proof (induction fs folder pid p c rule: rename_loop.induct)
  case (1 fs folder project_id new_path counter)
  show ?case
  proof (cases "path_exists fs new_path")
    case True
    then show ?thesis
      using "1.IH" by (simp add: rename_loop.simps [of fs folder project_id new_path counter])
  next
    case False
    then show ?thesis
      by (simp add: rename_loop.simps [of fs folder project_id new_path counter])
  qed
qed

lemma rename_loop_least:
  "path_exists fs p \<Longrightarrow>
   \<exists>k\<ge>c. rename_loop fs folder pid p c = join folder (pid @ ''_'' @ str_nat k @ ''.pdf'')
     \<and> (\<forall>j. c \<le> j \<and> j < k \<longrightarrow> path_exists fs (join folder (pid @ ''_'' @ str_nat j @ ''.pdf'')))"
proof (induction fs folder pid p c rule: rename_loop.induct)
  case (1 fs folder project_id new_path counter)
  let ?cand = "\<lambda>j. join folder (project_id @ ''_'' @ str_nat j @ ''.pdf'')"
  have eq: "rename_loop fs folder project_id new_path counter
      = rename_loop fs folder project_id (?cand counter) (counter + 1)"
    using "1.prems" by (simp add: rename_loop.simps [of fs folder project_id new_path counter])
  show ?case
  proof (cases "path_exists fs (?cand counter)")
    case False
    then have "rename_loop fs folder project_id (?cand counter) (counter + 1) = ?cand counter"
      by (subst rename_loop.simps) simp
    with eq show ?thesis by auto
  next
    case True
    from "1.IH" [OF "1.prems" True]
    obtain k where k: "counter + 1 \<le> k"
      "rename_loop fs folder project_id (?cand counter) (counter + 1) = ?cand k"
      "\<forall>j. counter + 1 \<le> j \<and> j < k \<longrightarrow> path_exists fs (?cand j)"
      by auto
    have "\<forall>j. counter \<le> j \<and> j < k \<longrightarrow> path_exists fs (?cand j)"
    proof (intro allI impI)
      fix j assume j: "counter \<le> j \<and> j < k"
      show "path_exists fs (?cand j)"
      proof (cases "j = counter")
        case True
        with \<open>path_exists fs (?cand counter)\<close> show ?thesis by simp
      next
        case False
        with j have "counter + 1 \<le> j \<and> j < k" by simp
        with k(3) show ?thesis by blast
      qed
    qed
    with k(1,2) eq show ?thesis
      by (intro exI [of _ k]) simp
  qed
qed

lemma get_unique_filename_least:
  assumes "path_exists fs f"
  shows "\<exists>k\<ge>1. get_unique_filename fs f = unique_candidate f k
     \<and> (\<forall>j. 1 \<le> j \<and> j < k \<longrightarrow> path_exists fs (unique_candidate f j))"
proof -
  obtain n e where ne: "splitext (basename f) = (n, e)"
    by (cases "splitext (basename f)")
  with assms have "get_unique_filename fs f = unique_loop fs (dirname f) n e 1"
    by (simp add: get_unique_filename_def)
  with unique_loop_least [of 1 fs "dirname f" n e] ne show ?thesis
    by (simp add: unique_candidate_def)
qed

text \<open>
  Claim C1, as amended. \<open>get_unique_filename\<close> returns a path that does not exist in the
  directory at call time: the desired path itself when it is free, and otherwise the
  desired name with \<open>_NN\<close> inserted before the extension, for the least counter
  \<open>NN \<ge> 1\<close> whose candidate is free, written in decimal and padded with zeros to two
  digits (exactly two digits below 100). Calling it again with the same desired name once
  the returned path has been created returns a different path. The inline loop of
  \<open>PID_RENAME.process_and_rename_document\<close> returns a free path too: \<open>id.pdf\<close> when
  free, and otherwise \<open>id_N.pdf\<close> for the least free \<open>N \<ge> 1\<close>, with \<open>N\<close> written
  without padding.
\<close>

theorem unique_naming:
  "\<not> path_exists fs (get_unique_filename fs f)
   \<and> (\<not> path_exists fs f \<longrightarrow> get_unique_filename fs f = f)
   \<and> (path_exists fs f \<longrightarrow>
        (\<exists>k\<ge>1. get_unique_filename fs f = unique_candidate f k
           \<and> (\<forall>j. 1 \<le> j \<and> j < k \<longrightarrow> path_exists fs (unique_candidate f j))
           \<and> (k < 100 \<longrightarrow> length (fmt02 k) = 2)))
   \<and> get_unique_filename (get_unique_filename fs f # fs) f \<noteq> get_unique_filename fs f
   \<and> \<not> path_exists fs (rename_target fs folder pid)
   \<and> (\<not> path_exists fs (join folder (pid @ ''.pdf'')) \<longrightarrow>
        rename_target fs folder pid = join folder (pid @ ''.pdf''))
   \<and> (path_exists fs (join folder (pid @ ''.pdf'')) \<longrightarrow>
        (\<exists>k\<ge>1. rename_target fs folder pid = join folder (pid @ ''_'' @ str_nat k @ ''.pdf'')
           \<and> (\<forall>j. 1 \<le> j \<and> j < k \<longrightarrow>
                path_exists fs (join folder (pid @ ''_'' @ str_nat j @ ''.pdf'')))))"
proof (intro conjI impI)
  show "\<not> path_exists fs (get_unique_filename fs f)"
    by (rule get_unique_filename_free)
  show "get_unique_filename fs f = f" if "\<not> path_exists fs f"
    using that by (simp add: get_unique_filename_def)
  show "\<exists>k\<ge>1. get_unique_filename fs f = unique_candidate f k
      \<and> (\<forall>j. 1 \<le> j \<and> j < k \<longrightarrow> path_exists fs (unique_candidate f j))
      \<and> (k < 100 \<longrightarrow> length (fmt02 k) = 2)" if "path_exists fs f"
    using get_unique_filename_least [OF that] length_fmt02_two by blast
  show "get_unique_filename (get_unique_filename fs f # fs) f \<noteq> get_unique_filename fs f"
    using get_unique_filename_free [of "get_unique_filename fs f # fs" f]
    by (auto simp: path_exists_def)
  show "\<not> path_exists fs (rename_target fs folder pid)"
    by (simp add: rename_target_def rename_loop_free)
  show "rename_target fs folder pid = join folder (pid @ ''.pdf'')"
    if "\<not> path_exists fs (join folder (pid @ ''.pdf''))"
    unfolding rename_target_def using that by (subst rename_loop.simps) simp
  show "\<exists>k\<ge>1. rename_target fs folder pid = join folder (pid @ ''_'' @ str_nat k @ ''.pdf'')
      \<and> (\<forall>j. 1 \<le> j \<and> j < k \<longrightarrow>
           path_exists fs (join folder (pid @ ''_'' @ str_nat j @ ''.pdf'')))"
    if "path_exists fs (join folder (pid @ ''.pdf''))"
    using rename_loop_least [OF that, of 1 folder pid] by (simp add: rename_target_def)
qed

theorem unique_naming_witness:
  "path_exists [''out/a.pdf'', ''out/a_01.pdf'', ''out/P123456.pdf''] ''out/a.pdf''
   \<and> path_exists [''out/a.pdf'', ''out/a_01.pdf'', ''out/P123456.pdf'']
        (join ''out'' (''P123456'' @ ''.pdf''))
   \<and> (\<exists>k\<ge>1. get_unique_filename [''out/a.pdf'', ''out/a_01.pdf'', ''out/P123456.pdf'']
          ''out/a.pdf'' = unique_candidate ''out/a.pdf'' k)
   \<and> (\<exists>k\<ge>1. rename_target [''out/a.pdf'', ''out/a_01.pdf'', ''out/P123456.pdf''] ''out''
          ''P123456'' = join ''out'' (''P123456'' @ ''_'' @ str_nat k @ ''.pdf''))"
proof -
  have h1: "path_exists [''out/a.pdf'', ''out/a_01.pdf'', ''out/P123456.pdf''] ''out/a.pdf''"
    by (simp add: path_exists_def)
  have h2: "path_exists [''out/a.pdf'', ''out/a_01.pdf'', ''out/P123456.pdf'']
      (join ''out'' (''P123456'' @ ''.pdf''))"
    by (simp add: path_exists_def join_def)
  from h1 h2
    unique_naming [of "[''out/a.pdf'', ''out/a_01.pdf'', ''out/P123456.pdf'']" "''out/a.pdf''"
      "''out''" "''P123456''"]
  show ?thesis by blast
qed

text \<open>
  The claim as stated promises the zero-padded suffix \<open>_01\<close> for every unique-naming
  site. In \<open>PID_RENAME\<close>, with \<open>P123456.pdf\<close> taken and \<open>P123456_01.pdf\<close> free, the
  chosen name is \<open>P123456_1.pdf\<close>.
\<close>

theorem unique_naming_counterexample:
  "path_exists [''docs/P123456.pdf''] (join ''docs'' (''P123456'' @ ''.pdf''))
   \<and> \<not> path_exists [''docs/P123456.pdf''] (join ''docs'' (''P123456'' @ ''_'' @ fmt02 1 @ ''.pdf''))
   \<and> rename_target [''docs/P123456.pdf''] ''docs'' ''P123456'' = ''docs/P123456_1.pdf''
   \<and> rename_target [''docs/P123456.pdf''] ''docs'' ''P123456''
        \<noteq> join ''docs'' (''P123456'' @ ''_'' @ fmt02 1 @ ''.pdf'')"
  by code_simp

section \<open>Content-based identifier extraction\<close>

text \<open>
  A PDF as the extractor sees it: either opening or parsing it raises, or it has a list of
  pages; \<open>extract_text\<close> of a page either raises (\<open>None\<close>) or returns its text.
\<close>

type_synonym page = "string option"

datatype pdf = Unreadable | Readable "page list"

datatype error = PdfError | LangDetectException | OSError | ConversionError

text \<open>
  \<open>re.findall(pattern, text)\<close> for a pattern \<open>P\<close> followed by six characters of a class,
  reduced to what the callers use: the first (leftmost) match, if any.
\<close>

fun first_match :: "(char \<Rightarrow> bool) \<Rightarrow> string \<Rightarrow> string option" where
  "first_match cls [] = None"
| "first_match cls (c # cs) =
     (if c = CHR ''P'' \<and> 6 \<le> length cs \<and> list_all cls (take 6 cs) then Some (c # take 6 cs)
      else first_match cls cs)"

text \<open>The class \<open>[0-9O]\<close> of \<open>word_to_pdf\<close>; \<open>PID_RENAME\<close> uses \<open>\d\<close>, here \<open>is_digit\<close>.\<close>

definition is_pid_char :: "char \<Rightarrow> bool" where
  "is_pid_char c = (is_digit c \<or> c = CHR ''O'')"

text \<open>\<open>s.replace('O', '0')\<close>.\<close>

definition replace_O :: "string \<Rightarrow> string" where
  "replace_O s = map (\<lambda>c. if c = CHR ''O'' then CHR ''0'' else c) s"

text \<open>
  The page loop inside the \<open>try\<close> block: \<open>corrected\<close> is what is returned for the first
  match of the first page that has one. A page whose text extraction raises ends the
  loop with an error.
\<close>

fun search_pages :: "(char \<Rightarrow> bool) \<Rightarrow> (string \<Rightarrow> string) \<Rightarrow> page list \<Rightarrow> error + string option" where
  "search_pages cls corrected [] = Inr None"
| "search_pages cls corrected (None # pgs) = Inl PdfError"
| "search_pages cls corrected (Some text # pgs) =
     (case first_match cls text of
        Some pid \<Rightarrow> Inr (Some (corrected pid))
      | None \<Rightarrow> search_pages cls corrected pgs)"

text \<open>\<open>word_to_pdf.extract_project_id\<close>; the \<open>except\<close> clause turns every error into \<open>None\<close>.\<close>

definition extract_project_id :: "pdf \<Rightarrow> nat \<Rightarrow> string option" where
  "extract_project_id doc max_pages =
     (case doc of
        Unreadable \<Rightarrow> None
      | Readable pages \<Rightarrow>
          (let pages_to_search = min (length pages) max_pages
           in case search_pages is_pid_char (\<lambda>pid. CHR ''P'' # replace_O (tl pid))
                  (take pages_to_search pages) of
                Inl e \<Rightarrow> None
              | Inr r \<Rightarrow> r))"

text \<open>\<open>PID_RENAME.extract_project_id\<close>: the pattern is \<open>P\d{6}\<close> and the match is returned as it is.\<close>

definition extract_project_id_pid_rename :: "pdf \<Rightarrow> nat \<Rightarrow> string option" where
  "extract_project_id_pid_rename doc max_pages =
     (case doc of
        Unreadable \<Rightarrow> None
      | Readable pages \<Rightarrow>
          (let pages_to_search = min (length pages) max_pages
           in case search_pages is_digit (\<lambda>pid. pid) (take pages_to_search pages) of
                Inl e \<Rightarrow> None
              | Inr r \<Rightarrow> r))"

text \<open>
  What it means for the pattern to match at position \<open>k\<close> of a text: a \<open>P\<close> there, and
  six characters of the class after it.
\<close>

definition matches_at :: "(char \<Rightarrow> bool) \<Rightarrow> string \<Rightarrow> nat \<Rightarrow> bool" where
  "matches_at cls t k =
     (k + 7 \<le> length t \<and> t ! k = CHR ''P'' \<and> list_all cls (take 6 (drop (Suc k) t)))"

text \<open>A page whose text is extracted and holds no match of the pattern.\<close>

definition unmatched :: "(char \<Rightarrow> bool) \<Rightarrow> page \<Rightarrow> bool" where
  "unmatched cls pg =
     (case pg of None \<Rightarrow> False | Some t \<Rightarrow> (\<forall>k<length t. \<not> matches_at cls t k))"

definition no_match :: "(char \<Rightarrow> bool) \<Rightarrow> page \<Rightarrow> bool" where
  "no_match cls pg = (case pg of None \<Rightarrow> False | Some t \<Rightarrow> first_match cls t = None)"

lemma matches_at_Cons_0:
  "matches_at cls (c # cs) 0 = (c = CHR ''P'' \<and> 6 \<le> length cs \<and> list_all cls (take 6 cs))"
  by (auto simp: matches_at_def)

lemma matches_at_Cons_Suc: "matches_at cls (c # cs) (Suc k) = matches_at cls cs k"
  by (auto simp: matches_at_def)

lemma first_match_None_iff: "first_match cls t = None \<longleftrightarrow> (\<forall>k. \<not> matches_at cls t k)"
proof (induction t)
  case Nil
  then show ?case by (simp add: matches_at_def)
next
  case (Cons c cs)
  show ?case
  proof (cases "matches_at cls (c # cs) 0")
    case True
    then have "first_match cls (c # cs) \<noteq> None"
      by (simp add: matches_at_Cons_0)
    with True show ?thesis by blast
  next
    case False
    then have "first_match cls (c # cs) = first_match cls cs"
      by (auto simp: matches_at_Cons_0)
    moreover have "(\<forall>k. \<not> matches_at cls (c # cs) k) \<longleftrightarrow> (\<forall>k. \<not> matches_at cls cs k)"
    proof
      assume "\<forall>k. \<not> matches_at cls (c # cs) k"
      then show "\<forall>k. \<not> matches_at cls cs k"
        using matches_at_Cons_Suc [of cls c cs] by blast
    next
      assume a: "\<forall>k. \<not> matches_at cls cs k"
      show "\<forall>k. \<not> matches_at cls (c # cs) k"
      proof
        fix k show "\<not> matches_at cls (c # cs) k"
          using a False by (cases k) (simp_all add: matches_at_Cons_Suc)
      qed
    qed
    ultimately show ?thesis using Cons.IH by simp
  qed
qed

lemma first_match_leftmost:
  "matches_at cls t k \<Longrightarrow> (\<forall>j<k. \<not> matches_at cls t j) \<Longrightarrow>
   first_match cls t = Some (CHR ''P'' # take 6 (drop (Suc k) t))"
proof (induction t arbitrary: k)
  case Nil
  then show ?case by (simp add: matches_at_def)
next
  case (Cons c cs)
  show ?case
  proof (cases k)
    case 0
    with Cons.prems(1) show ?thesis
      by (simp add: matches_at_Cons_0)
  next
    case (Suc k')
    with Cons.prems have m: "matches_at cls cs k'" and n0: "\<not> matches_at cls (c # cs) 0"
      by (auto simp: matches_at_Cons_Suc)
    have "\<forall>j<k'. \<not> matches_at cls cs j"
    proof (intro allI impI)
      fix j assume "j < k'"
      then have "Suc j < k" using Suc by simp
      with Cons.prems(2) have "\<not> matches_at cls (c # cs) (Suc j)" by blast
      then show "\<not> matches_at cls cs j" by (simp add: matches_at_Cons_Suc)
    qed
    with Cons.IH [OF m] have "first_match cls cs = Some (CHR ''P'' # take 6 (drop (Suc k') cs))"
      by blast
    moreover from n0 have "first_match cls (c # cs) = first_match cls cs"
      by (auto simp: matches_at_Cons_0)
    ultimately show ?thesis using Suc by simp
  qed
qed

lemma search_pages_no_match:
  "\<forall>pg\<in>set pgs. no_match cls pg \<Longrightarrow> search_pages cls f pgs = Inr None"
proof (induction pgs)
  case Nil
  then show ?case by simp
next
  case (Cons pg pgs)
  then show ?case by (cases pg) (simp_all add: no_match_def)
qed

lemma search_pages_first:
  "\<forall>pg\<in>set pre. no_match cls pg \<Longrightarrow> first_match cls t = Some m \<Longrightarrow>
   search_pages cls f (pre @ Some t # post) = Inr (Some (f m))"
proof (induction pre)
  case Nil
  then show ?case by simp
next
  case (Cons pg pre)
  then show ?case by (cases pg) (simp_all add: no_match_def)
qed

lemma search_pages_raises:
  "\<forall>pg\<in>set pre. no_match cls pg \<Longrightarrow> search_pages cls f (pre @ None # post) = Inl PdfError"
proof (induction pre)
  case Nil
  then show ?case by simp
next
  case (Cons pg pre)
  then show ?case by (cases pg) (simp_all add: no_match_def)
qed

lemma unmatched_no_match: "unmatched cls pg = no_match cls pg"
proof (cases pg)
  case None
  then show ?thesis by (simp add: unmatched_def no_match_def)
next
  case (Some t)
  have "(\<forall>k<length t. \<not> matches_at cls t k) \<longleftrightarrow> (\<forall>k. \<not> matches_at cls t k)"
    by (auto simp: matches_at_def)
  with Some show ?thesis
    by (simp add: unmatched_def no_match_def first_match_None_iff)
qed

lemma searched_none:
  assumes "\<forall>pg\<in>set (take (min (length pages) n) pages). unmatched cls pg"
  shows "search_pages cls f (take (min (length pages) n) pages) = Inr None"
  using assms by (simp add: search_pages_no_match unmatched_no_match)

lemma searched_first:
  assumes "take (min (length pages) n) pages = pre @ Some t # post"
    and "\<forall>pg\<in>set pre. unmatched cls pg"
    and "matches_at cls t k" and "\<forall>j<k. \<not> matches_at cls t j"
  shows "search_pages cls f (take (min (length pages) n) pages)
    = Inr (Some (f (CHR ''P'' # take 6 (drop (Suc k) t))))"
proof -
  have "first_match cls t = Some (CHR ''P'' # take 6 (drop (Suc k) t))"
    using assms(3,4) by (rule first_match_leftmost)
  moreover have "\<forall>pg\<in>set pre. no_match cls pg"
    using assms(2) by (simp add: unmatched_no_match)
  ultimately show ?thesis
    unfolding assms(1) by (simp add: search_pages_first)
qed

lemma searched_raises:
  assumes "take (min (length pages) n) pages = pre @ None # post"
    and "\<forall>pg\<in>set pre. unmatched cls pg"
  shows "search_pages cls f (take (min (length pages) n) pages) = Inl PdfError"
  unfolding assms(1) using assms(2) by (simp add: search_pages_raises unmatched_no_match)

text \<open>
  Claim C3, as amended. \<open>word_to_pdf.extract_project_id\<close> looks at the first
  \<open>min(pageCount, max_pages)\<close> pages (10 by default), page by page. When the first page with
  a match of \<open>P\<close> followed by six characters of \<open>[0-9O]\<close> is reached without an extraction
  error, it returns the leftmost match of that page with every \<open>O\<close> after the leading
  \<open>P\<close> replaced by \<open>0\<close>. When none of those pages has a match, when the PDF cannot be
  opened, or when the text of a page cannot be extracted before a match is found, it
  returns \<open>None\<close>; it never raises. \<open>PID_RENAME.extract_project_id\<close> has the same structure
  but matches only \<open>P\<close> followed by six digits and returns the match unchanged.
\<close>

theorem identifier_extraction:
  "extract_project_id Unreadable n = None
   \<and> ((\<forall>pg\<in>set (take (min (length pages) n) pages). unmatched is_pid_char pg) \<longrightarrow>
        extract_project_id (Readable pages) n = None)
   \<and> (take (min (length pages) n) pages = pre @ Some t # post
        \<and> (\<forall>pg\<in>set pre. unmatched is_pid_char pg)
        \<and> matches_at is_pid_char t k \<and> (\<forall>j<k. \<not> matches_at is_pid_char t j) \<longrightarrow>
        extract_project_id (Readable pages) n
          = Some (CHR ''P'' # replace_O (take 6 (drop (Suc k) t))))
   \<and> (take (min (length pages) n) pages = pre @ None # post
        \<and> (\<forall>pg\<in>set pre. unmatched is_pid_char pg) \<longrightarrow>
        extract_project_id (Readable pages) n = None)
   \<and> extract_project_id_pid_rename Unreadable n = None
   \<and> ((\<forall>pg\<in>set (take (min (length pages) n) pages). unmatched is_digit pg) \<longrightarrow>
        extract_project_id_pid_rename (Readable pages) n = None)
   \<and> (take (min (length pages) n) pages = pre @ Some t # post
        \<and> (\<forall>pg\<in>set pre. unmatched is_digit pg)
        \<and> matches_at is_digit t k \<and> (\<forall>j<k. \<not> matches_at is_digit t j) \<longrightarrow>
        extract_project_id_pid_rename (Readable pages) n
          = Some (CHR ''P'' # take 6 (drop (Suc k) t)))
   \<and> (take (min (length pages) n) pages = pre @ None # post
        \<and> (\<forall>pg\<in>set pre. unmatched is_digit pg) \<longrightarrow>
        extract_project_id_pid_rename (Readable pages) n = None)"
proof (intro conjI impI)
  show "extract_project_id Unreadable n = None"
    by (simp add: extract_project_id_def)
  show "extract_project_id_pid_rename Unreadable n = None"
    by (simp add: extract_project_id_pid_rename_def)
  show "extract_project_id (Readable pages) n = None"
    if "\<forall>pg\<in>set (take (min (length pages) n) pages). unmatched is_pid_char pg"
    using searched_none [OF that] by (simp add: extract_project_id_def)
  show "extract_project_id_pid_rename (Readable pages) n = None"
    if "\<forall>pg\<in>set (take (min (length pages) n) pages). unmatched is_digit pg"
    using searched_none [OF that] by (simp add: extract_project_id_pid_rename_def)
  show "extract_project_id (Readable pages) n
      = Some (CHR ''P'' # replace_O (take 6 (drop (Suc k) t)))"
    if "take (min (length pages) n) pages = pre @ Some t # post
        \<and> (\<forall>pg\<in>set pre. unmatched is_pid_char pg)
        \<and> matches_at is_pid_char t k \<and> (\<forall>j<k. \<not> matches_at is_pid_char t j)"
  proof -
    from that have "search_pages is_pid_char (\<lambda>pid. CHR ''P'' # replace_O (tl pid))
        (take (min (length pages) n) pages)
      = Inr (Some (CHR ''P'' # replace_O (tl (CHR ''P'' # take 6 (drop (Suc k) t)))))"
      by (intro searched_first [where pre = pre and post = post]) simp_all
    then show ?thesis by (simp add: extract_project_id_def)
  qed
  show "extract_project_id_pid_rename (Readable pages) n
      = Some (CHR ''P'' # take 6 (drop (Suc k) t))"
    if "take (min (length pages) n) pages = pre @ Some t # post
        \<and> (\<forall>pg\<in>set pre. unmatched is_digit pg)
        \<and> matches_at is_digit t k \<and> (\<forall>j<k. \<not> matches_at is_digit t j)"
  proof -
    from that have "search_pages is_digit (\<lambda>pid. pid) (take (min (length pages) n) pages)
      = Inr (Some (CHR ''P'' # take 6 (drop (Suc k) t)))"
      by (intro searched_first [where pre = pre and post = post]) simp_all
    then show ?thesis by (simp add: extract_project_id_pid_rename_def)
  qed
  show "extract_project_id (Readable pages) n = None"
    if "take (min (length pages) n) pages = pre @ None # post
        \<and> (\<forall>pg\<in>set pre. unmatched is_pid_char pg)"
  proof -
    from that have "search_pages is_pid_char (\<lambda>pid. CHR ''P'' # replace_O (tl pid))
        (take (min (length pages) n) pages) = Inl PdfError"
      by (intro searched_raises [where pre = pre and post = post]) simp_all
    then show ?thesis by (simp add: extract_project_id_def)
  qed
  show "extract_project_id_pid_rename (Readable pages) n = None"
    if "take (min (length pages) n) pages = pre @ None # post
        \<and> (\<forall>pg\<in>set pre. unmatched is_digit pg)"
  proof -
    from that have "search_pages is_digit (\<lambda>pid. pid) (take (min (length pages) n) pages)
      = Inl PdfError"
      by (intro searched_raises [where pre = pre and post = post]) simp_all
    then show ?thesis by (simp add: extract_project_id_pid_rename_def)
  qed
qed

theorem identifier_extraction_witness:
  "take (min (length [Some ''Cover page'', Some ''Project PO12345 approved'']) 10)
       [Some ''Cover page'', Some ''Project PO12345 approved'']
     = [Some ''Cover page''] @ Some ''Project PO12345 approved'' # []
   \<and> unmatched is_pid_char (Some ''Cover page'')
   \<and> matches_at is_pid_char ''Project PO12345 approved'' 8
   \<and> extract_project_id (Readable [Some ''Cover page'', Some ''Project PO12345 approved'']) 10
       = Some ''P012345''"
proof -
  have h1: "take (min (length [Some ''Cover page'', Some ''Project PO12345 approved'']) 10)
        [Some ''Cover page'', Some ''Project PO12345 approved'']
      = [Some ''Cover page''] @ Some ''Project PO12345 approved'' # []"
    by simp
  have h2: "\<forall>pg\<in>set [Some ''Cover page'']. unmatched is_pid_char pg"
    by (simp add: unmatched_no_match no_match_def is_pid_char_def is_digit_def)
  have h3: "matches_at is_pid_char ''Project PO12345 approved'' 8"
    by (simp add: matches_at_def is_pid_char_def is_digit_def)
  have h4: "\<forall>j<8. \<not> matches_at is_pid_char ''Project PO12345 approved'' j"
    by (simp add: matches_at_def is_pid_char_def is_digit_def All_less_Suc numeral_eq_Suc)
  have r: "CHR ''P'' # replace_O (take 6 (drop (Suc 8) ''Project PO12345 approved''))
      = ''P012345''"
    by (simp add: replace_O_def)
  from identifier_extraction [of 10 "[Some ''Cover page'', Some ''Project PO12345 approved'']"
      "[Some ''Cover page'']" "''Project PO12345 approved''" "[]" 8] h1 h2 h3 h4
  have "extract_project_id (Readable [Some ''Cover page'', Some ''Project PO12345 approved'']) 10
      = Some (CHR ''P'' # replace_O (take 6 (drop (Suc 8) ''Project PO12345 approved'')))"
    by blast
  with r h1 h2 h3 show ?thesis by simp
qed

text \<open>
  The claim as stated covers every content-based extractor. On a page reading
  \<open>Project PO12345 approved\<close> the pattern of the claim matches at position 8, and the
  extractor of \<open>PID_RENAME\<close> returns \<open>None\<close>, not \<open>P012345\<close>.
\<close>

theorem identifier_extraction_counterexample:
  "matches_at is_pid_char ''Project PO12345 approved'' 8
   \<and> extract_project_id_pid_rename (Readable [Some ''Project PO12345 approved'']) 10 = None"
  by (simp add: matches_at_def is_pid_char_def is_digit_def extract_project_id_pid_rename_def)

section \<open>Language classification (\<open>word_to_pdf.detect_language\<close>)\<close>

text \<open>
  The loop that concatenates page texts: an empty text is skipped; after adding a text
  the loop stops as soon as more than 1000 characters are gathered.
\<close>

fun gather :: "page list \<Rightarrow> string \<Rightarrow> error + string" where
  "gather [] all_text = Inr all_text"
| "gather (None # pgs) all_text = Inl PdfError"
| "gather (Some text # pgs) all_text =
     (if text \<noteq> []
      then (if length (all_text @ text) > 1000 then Inr (all_text @ text)
            else gather pgs (all_text @ text))
      else gather pgs all_text)"

text \<open>
  \<open>detect\<close> stands for \<open>langdetect.detect\<close>: it returns a language code or raises. Every
  exception, of the detector or of the PDF library, ends in \<open>NON\<close>.
\<close>

definition detect_language :: "(string \<Rightarrow> error + string) \<Rightarrow> pdf \<Rightarrow> nat \<Rightarrow> string" where
  "detect_language detect doc pages_to_check =
     (case doc of
        Unreadable \<Rightarrow> ''NON''
      | Readable pages \<Rightarrow>
          (case gather (take (min (length pages) pages_to_check) pages) [] of
             Inl e \<Rightarrow> ''NON''
           | Inr all_text \<Rightarrow>
               if length all_text > 100
               then (case detect all_text of
                       Inr lang \<Rightarrow> if lang = ''en'' then ''EN'' else ''NON''
                     | Inl e \<Rightarrow> ''NON'')
               else ''NON''))"

text \<open>A detector that recognises English in every text, for concrete runs.\<close>

definition detect_en :: "string \<Rightarrow> error + string" where
  "detect_en t = Inr ''en''"

text \<open>
  Three facts about the loop, for a text of at most 1000 characters gathered so far.
  When the first \<open>j\<close> pages are readable, the loop has not stopped before page \<open>j\<close>,
  and either the pages end there or more than 1000 characters are gathered, the loop
  returns their concatenation. When page \<open>j\<close> is the first page whose text cannot be
  extracted and at most 1000 characters are gathered before it, the loop raises. One of
  the two situations always holds.
\<close>

lemma gather_readable:
  assumes "length acc \<le> 1000" and "j \<le> length ps" and "take j ps = map Some ts"
    and "\<forall>i<j. length (acc @ concat (take i ts)) \<le> 1000"
    and "j = length ps \<or> 1000 < length (acc @ concat ts)"
  shows "gather ps acc = Inr (acc @ concat ts)"
  using assms
proof (induction ps arbitrary: j ts acc)
  case Nil
  then show ?case by simp
next
  case (Cons p ps)
  show ?case
  proof (cases j)
    case 0
    with Cons.prems(3) have "ts = []" by simp
    with 0 Cons.prems(1,5) show ?thesis by simp
  next
    case (Suc j')
    with Cons.prems(3) obtain t ts' where ts: "ts = t # ts'" and p: "p = Some t"
      and rest: "take j' ps = map Some ts'"
      by (cases ts) auto
    show ?thesis
    proof (cases "t \<noteq> [] \<and> 1000 < length (acc @ t)")
      case True
      have "j' = 0"
      proof (rule ccontr)
        assume "j' \<noteq> 0"
        then have "1 < j" using Suc by simp
        with Cons.prems(4) have "length (acc @ concat (take 1 ts)) \<le> 1000" by blast
        with ts True show False by simp
      qed
      with rest have "ts' = []" by simp
      with ts p True show ?thesis by simp
    next
      case False
      then have step: "gather (p # ps) acc = gather ps (acc @ t)"
        using p by auto
      from False Cons.prems(1) have len: "length (acc @ t) \<le> 1000"
        by (cases "t = []") auto
      have pre: "\<forall>i<j'. length ((acc @ t) @ concat (take i ts')) \<le> 1000"
      proof (intro allI impI)
        fix i assume "i < j'"
        then have "Suc i < j" using Suc by simp
        with Cons.prems(4) have "length (acc @ concat (take (Suc i) ts)) \<le> 1000" by blast
        with ts show "length ((acc @ t) @ concat (take i ts')) \<le> 1000" by simp
      qed
      have stop: "j' = length ps \<or> 1000 < length ((acc @ t) @ concat ts')"
        using Cons.prems(5) Suc ts by simp
      have "j' \<le> length ps" using Cons.prems(2) Suc by simp
      from Cons.IH [OF len this rest pre stop] step ts show ?thesis by simp
    qed
  qed
qed

lemma gather_unreadable:
  assumes "j < length ps" and "take j ps = map Some ts" and "ps ! j = None"
    and "\<forall>i\<le>j. length (acc @ concat (take i ts)) \<le> 1000"
  shows "gather ps acc = Inl PdfError"
  using assms
proof (induction ps arbitrary: j ts acc)
  case Nil
  then show ?case by simp
next
  case (Cons p ps)
  show ?case
  proof (cases j)
    case 0
    with Cons.prems(3) show ?thesis by simp
  next
    case (Suc j')
    with Cons.prems(2) obtain t ts' where ts: "ts = t # ts'" and p: "p = Some t"
      and rest: "take j' ps = map Some ts'"
      by (cases ts) auto
    from Cons.prems(4) Suc have "length (acc @ concat (take 1 ts)) \<le> 1000" by simp
    with ts have len: "length (acc @ t) \<le> 1000" by simp
    then have step: "gather (p # ps) acc = gather ps (acc @ t)"
      using p by auto
    have pre: "\<forall>i\<le>j'. length ((acc @ t) @ concat (take i ts')) \<le> 1000"
    proof (intro allI impI)
      fix i assume "i \<le> j'"
      then have "Suc i \<le> j" using Suc by simp
      with Cons.prems(4) have "length (acc @ concat (take (Suc i) ts)) \<le> 1000" by blast
      with ts show "length ((acc @ t) @ concat (take i ts')) \<le> 1000" by simp
    qed
    have "j' < length ps" and "ps ! j' = None"
      using Cons.prems(1,3) Suc by simp_all
    from Cons.IH [OF this(1) rest this(2) pre] step show ?thesis by simp
  qed
qed

lemma gather_cases:
  assumes "length acc \<le> 1000"
  shows "\<exists>j ts. j \<le> length ps \<and> take j ps = map Some ts
    \<and> (\<forall>i<j. length (acc @ concat (take i ts)) \<le> 1000)
    \<and> (j = length ps \<or> 1000 < length (acc @ concat ts)
        \<or> (j < length ps \<and> ps ! j = None \<and> length (acc @ concat ts) \<le> 1000))"
  using assms
proof (induction ps arbitrary: acc)
  case Nil
  show ?case by (intro exI [of _ 0] exI [of _ "[]"]) simp
next
  case (Cons p ps)
  show ?case
  proof (cases p)
    case None
    with Cons.prems show ?thesis by (intro exI [of _ 0] exI [of _ "[]"]) simp
  next
    case (Some t)
    show ?thesis
    proof (cases "1000 < length (acc @ t)")
      case True
      with Some Cons.prems show ?thesis by (intro exI [of _ 1] exI [of _ "[t]"]) simp
    next
      case False
      then have "length (acc @ t) \<le> 1000" by simp
      from Cons.IH [OF this] obtain j ts where j: "j \<le> length ps" "take j ps = map Some ts"
        "\<forall>i<j. length ((acc @ t) @ concat (take i ts)) \<le> 1000"
        "j = length ps \<or> 1000 < length ((acc @ t) @ concat ts)
          \<or> (j < length ps \<and> ps ! j = None \<and> length ((acc @ t) @ concat ts) \<le> 1000)"
        by blast
      have pre: "\<forall>i<Suc j. length (acc @ concat (take i (t # ts))) \<le> 1000"
      proof (intro allI impI)
        fix i assume "i < Suc j"
        then show "length (acc @ concat (take i (t # ts))) \<le> 1000"
          using j(3) Cons.prems by (cases i) auto
      qed
      from j(1,2,4) Some pre show ?thesis
        by (intro exI [of _ "Suc j"] exI [of _ "t # ts"]) simp
    qed
  qed
qed

text \<open>
  Claim C4, as amended. Let \<open>ps\<close> be the first \<open>min(pageCount, pages_to_check)\<close> pages (3
  by default). The classifier reads them in order and concatenates their texts; it stops
  after the first page with which more than 1000 characters are gathered, and pages
  after that one are not read. When the pages read are readable and their texts
  \<open>ts\<close> are what is gathered (the pages end, or more than 1000 characters are reached),
  the answer is \<open>NON\<close> if at most 100 characters were gathered (so also at exactly 100)
  or detection raises, and otherwise \<open>EN\<close> if and only if the detected code is \<open>en\<close>.
  When the text of a page cannot be extracted before the gathering has stopped, or the
  PDF cannot be opened, the answer is \<open>NON\<close>. Every PDF is in one of these situations;
  the result is always \<open>EN\<close> or \<open>NON\<close>, and the classifier never raises.
\<close>

theorem language_classification:
  "detect_language detect doc n \<in> {''EN'', ''NON''}
   \<and> detect_language detect Unreadable n = ''NON''
   \<and> (ps = take (min (length pages) n) pages \<and> j \<le> length ps \<and> take j ps = map Some ts
        \<and> (\<forall>i<j. length (concat (take i ts)) \<le> 1000) \<longrightarrow>
        (j = length ps \<or> 1000 < length (concat ts) \<longrightarrow>
           detect_language detect (Readable pages) n =
             (if length (concat ts) \<le> 100 then ''NON''
              else case detect (concat ts) of
                     Inr lang \<Rightarrow> if lang = ''en'' then ''EN'' else ''NON''
                   | Inl e \<Rightarrow> ''NON''))
        \<and> (j < length ps \<and> ps ! j = None \<and> length (concat ts) \<le> 1000 \<longrightarrow>
             detect_language detect (Readable pages) n = ''NON''))
   \<and> (\<exists>j ts. j \<le> length (take (min (length pages) n) pages)
         \<and> take j (take (min (length pages) n) pages) = map Some ts
         \<and> (\<forall>i<j. length (concat (take i ts)) \<le> 1000)
         \<and> (j = length (take (min (length pages) n) pages) \<or> 1000 < length (concat ts)
             \<or> (j < length (take (min (length pages) n) pages)
                 \<and> take (min (length pages) n) pages ! j = None
                 \<and> length (concat ts) \<le> 1000)))"
proof (intro conjI impI)
  show "detect_language detect doc n \<in> {''EN'', ''NON''}"
    by (simp add: detect_language_def split: pdf.split sum.split)
  show "detect_language detect Unreadable n = ''NON''"
    by (simp add: detect_language_def)
  show "\<exists>j ts. j \<le> length (take (min (length pages) n) pages)
      \<and> take j (take (min (length pages) n) pages) = map Some ts
      \<and> (\<forall>i<j. length (concat (take i ts)) \<le> 1000)
      \<and> (j = length (take (min (length pages) n) pages) \<or> 1000 < length (concat ts)
          \<or> (j < length (take (min (length pages) n) pages)
              \<and> take (min (length pages) n) pages ! j = None
              \<and> length (concat ts) \<le> 1000))"
    using gather_cases [of "[]" "take (min (length pages) n) pages"] by simp
next
  assume h: "ps = take (min (length pages) n) pages \<and> j \<le> length ps
      \<and> take j ps = map Some ts \<and> (\<forall>i<j. length (concat (take i ts)) \<le> 1000)"
  assume stop: "j = length ps \<or> 1000 < length (concat ts)"
  from h have ps: "ps = take (min (length pages) n) pages" and j: "j \<le> length ps"
    and ts: "take j ps = map Some ts" and pre: "\<forall>i<j. length (concat (take i ts)) \<le> 1000"
    by blast+
  have "gather ps [] = Inr ([] @ concat ts)"
    using j ts pre stop by (intro gather_readable) simp_all
  with ps show "detect_language detect (Readable pages) n =
      (if length (concat ts) \<le> 100 then ''NON''
       else case detect (concat ts) of
              Inr lang \<Rightarrow> if lang = ''en'' then ''EN'' else ''NON''
            | Inl e \<Rightarrow> ''NON'')"
    by (simp add: detect_language_def split: sum.split)
next
  assume h: "ps = take (min (length pages) n) pages \<and> j \<le> length ps
      \<and> take j ps = map Some ts \<and> (\<forall>i<j. length (concat (take i ts)) \<le> 1000)"
  assume bad: "j < length ps \<and> ps ! j = None \<and> length (concat ts) \<le> 1000"
  from h have ps: "ps = take (min (length pages) n) pages" and j: "j \<le> length ps"
    and ts: "take j ps = map Some ts" and pre: "\<forall>i<j. length (concat (take i ts)) \<le> 1000"
    by blast+
  from j ts have len: "length ts = j"
    by (metis length_map length_take min.absorb2)
  have "\<forall>i\<le>j. length ([] @ concat (take i ts)) \<le> 1000"
  proof (intro allI impI)
    fix i assume "i \<le> j"
    then show "length ([] @ concat (take i ts)) \<le> 1000"
      using pre bad len by (cases "i = j") auto
  qed
  with ts bad have "gather ps [] = Inl PdfError"
    by (intro gather_unreadable [of j ps ts]) blast+
  with ps show "detect_language detect (Readable pages) n = ''NON''"
    by (simp add: detect_language_def)
qed

text \<open>
  Two PDFs of two pages whose second page cannot be read. With 1001 characters on the
  first page the gathering stops there and the second page is not read; with 101
  characters the second page is read and the answer is \<open>NON\<close>.
\<close>

theorem language_classification_witness:
  "detect_language detect_en (Readable [Some (replicate 1001 CHR ''a''), None]) 3 = ''EN''
   \<and> detect_language detect_en (Readable [Some (replicate 101 CHR ''a''), None]) 3 = ''NON''
   \<and> detect_language detect_en (Readable [Some (replicate 101 CHR ''a'')]) 3 = ''EN''"
proof -
  have "detect_language detect_en (Readable [Some (replicate 1001 CHR ''a''), None]) 3 = ''EN''"
    using language_classification [of detect_en Unreadable 3
        "[Some (replicate 1001 CHR ''a''), None]" "[Some (replicate 1001 CHR ''a''), None]"
        1 "[replicate 1001 CHR ''a'']"]
    by (simp add: detect_en_def)
  moreover
  have "detect_language detect_en (Readable [Some (replicate 101 CHR ''a''), None]) 3 = ''NON''"
    using language_classification [of detect_en Unreadable 3
        "[Some (replicate 101 CHR ''a''), None]" "[Some (replicate 101 CHR ''a''), None]"
        1 "[replicate 101 CHR ''a'']"]
    by simp
  moreover
  have "detect_language detect_en (Readable [Some (replicate 101 CHR ''a'')]) 3 = ''EN''"
    using language_classification [of detect_en Unreadable 3
        "[Some (replicate 101 CHR ''a'')]" "[Some (replicate 101 CHR ''a'')]"
        1 "[replicate 101 CHR ''a'']"]
    by (simp add: detect_en_def)
  ultimately show ?thesis by blast
qed

text \<open>
  The claim as stated classifies as \<open>NON\<close> only below 100 characters. A PDF whose single
  page has exactly 100 characters, all recognised as English, is classified \<open>NON\<close>.
\<close>

theorem language_classification_counterexample:
  "\<not> length (replicate 100 CHR ''a'') < 100
   \<and> detect_en (replicate 100 CHR ''a'') = Inr ''en''
   \<and> detect_language detect_en (Readable [Some (replicate 100 CHR ''a'')]) 3 = ''NON''"
  by (simp add: detect_language_def detect_en_def)

section \<open>The country-mapping loader (\<open>word_to_pdf.load_project_country_mapping\<close>)\<close>

text \<open>
  A spreadsheet cell of the two selected columns: a missing value (pandas reads it as
  NaN, and \<open>str\<close> of it is \<open>nan\<close>) or a text.
\<close>

datatype cell = Missing | Text string

definition py_str :: "cell \<Rightarrow> string" where
  "py_str c = (case c of Missing \<Rightarrow> ''nan'' | Text t \<Rightarrow> t)"

text \<open>
  \<open>str.strip()\<close> removes the characters for which \<open>str.isspace\<close> holds; among the
  characters up to \<open>0xFF\<close> these are the blank, \<open>0x09\<close> to \<open>0x0D\<close>, \<open>0x1C\<close> to \<open>0x1F\<close>,
  \<open>0x85\<close> and \<open>0xA0\<close>.
\<close>

definition is_space :: "char \<Rightarrow> bool" where
  "is_space c = (c \<in> set [CHR '' '', CHR 0x09, CHR 0x0A, CHR 0x0B, CHR 0x0C, CHR 0x0D,
     CHR 0x1C, CHR 0x1D, CHR 0x1E, CHR 0x1F, CHR 0x85, CHR 0xA0])"

definition strip :: "string \<Rightarrow> string" where
  "strip s = rev (dropWhile is_space (rev (dropWhile is_space s)))"

text \<open>\<open>pd.isna\<close> of a Python string is \<open>False\<close>.\<close>

definition pd_isna :: "string \<Rightarrow> bool" where
  "pd_isna s = False"

definition startswith_P :: "string \<Rightarrow> bool" where
  "startswith_P s = (case s of [] \<Rightarrow> False | c # cs \<Rightarrow> c = CHR ''P'')"

text \<open>
  \<open>str.isdigit()\<close>: the string is not empty and all its characters are digits. Besides
  \<open>0\<close> to \<open>9\<close>, which are all that \<open>\d\<close> matches among the characters up to \<open>0xFF\<close>, the
  superscripts \<open>0xB2\<close>, \<open>0xB3\<close> and \<open>0xB9\<close> count as digits here.
\<close>

definition isdigit :: "string \<Rightarrow> bool" where
  "isdigit s =
     (s \<noteq> [] \<and> list_all (\<lambda>c. is_digit c \<or> c \<in> set [CHR 0xB2, CHR 0xB3, CHR 0xB9]) s)"

text \<open>\<open>re.sub(r'[^P0-9]', '', s)\<close>.\<close>

definition re_sub_non_pid :: "string \<Rightarrow> string" where
  "re_sub_non_pid s = filter (\<lambda>c. c = CHR ''P'' \<or> is_digit c) s"

text \<open>\<open>re.match(r'P\d{6}', s)\<close>: a match at the start of \<open>s\<close>; what follows is not looked at.\<close>

definition re_match_pid :: "string \<Rightarrow> bool" where
  "re_match_pid s =
     (case s of [] \<Rightarrow> False
      | c # cs \<Rightarrow> c = CHR ''P'' \<and> 6 \<le> length cs \<and> list_all is_digit (take 6 cs))"

text \<open>The loop over the rows, lines 936 to 954; the dictionary is a map.\<close>

fun load_rows :: "(cell \<times> cell) list \<Rightarrow> (string \<rightharpoonup> string) \<Rightarrow> (string \<rightharpoonup> string)" where
  "load_rows [] mapping = mapping"
| "load_rows ((p, c) # rows) mapping =
     (let project_id = strip (py_str p);
          country = strip (py_str c)
      in if project_id = [] \<or> country = [] \<or> pd_isna project_id \<or> pd_isna country
         then load_rows rows mapping
         else let project_id =
                    (if project_id \<noteq> [] \<and> \<not> startswith_P project_id \<and> isdigit project_id
                     then CHR ''P'' # project_id else project_id);
                  project_id = re_sub_non_pid project_id
              in if re_match_pid project_id
                 then load_rows rows (mapping(project_id \<mapsto> country))
                 else load_rows rows mapping)"

definition load_project_country_mapping :: "(cell \<times> cell) list \<Rightarrow> (string \<rightharpoonup> string)" where
  "load_project_country_mapping rows = load_rows rows Map.empty"

text \<open>A ProjectIdentifier of the mapping, as the claim has it: \<open>P\<close> and exactly six digits.\<close>

definition is_project_identifier :: "string \<Rightarrow> bool" where
  "is_project_identifier s =
     (case s of [] \<Rightarrow> False
      | c # cs \<Rightarrow> c = CHR ''P'' \<and> length cs = 6 \<and> list_all is_digit cs)"

lemma load_rows_step:
  "\<exists>m'. load_rows ((p, c) # rows) m = load_rows rows m'
     \<and> (m' = m \<or> (\<exists>pid country. re_match_pid pid \<and> m' = m(pid \<mapsto> country)))"
proof (cases "load_rows ((p, c) # rows) m = load_rows rows m")
  case True
  then show ?thesis by blast
next
  case False
  then show ?thesis
    by (simp add: Let_def split: if_splits) blast+
qed

lemma load_rows_keys:
  "load_rows rows m k = Some v \<Longrightarrow> m k = Some v \<or> re_match_pid k"
proof (induction rows arbitrary: m)
  case Nil
  then show ?case by simp
next
  case (Cons row rows)
  obtain p c where row: "row = (p, c)" by (cases row)
  from load_rows_step [of p c rows m] obtain m' where m':
    "load_rows ((p, c) # rows) m = load_rows rows m'"
    "m' = m \<or> (\<exists>pid country. re_match_pid pid \<and> m' = m(pid \<mapsto> country))"
    by blast
  from Cons.prems row m'(1) have "load_rows rows m' k = Some v" by simp
  then have "m' k = Some v \<or> re_match_pid k" by (rule Cons.IH)
  with m'(2) show ?case
    by (auto split: if_splits)
qed

text \<open>
  What the loader does guarantee: every key starts with \<open>P\<close> and six digits.
\<close>

lemma loaded_keys_prefix:
  "load_project_country_mapping rows k = Some v \<Longrightarrow> re_match_pid k"
  using load_rows_keys [of rows Map.empty k v] by (simp add: load_project_country_mapping_def)

text \<open>
  Claim C5 fails on the code. A row with identifier \<open>P1234567\<close> passes the unanchored
  \<open>re.match\<close> and becomes a key that is not \<open>P\<close> followed by exactly six digits; and a
  row whose country cell is missing still contributes an entry, with country \<open>nan\<close>.
\<close>

theorem loader_keys_failing_input:
  "load_project_country_mapping [(Text ''P1234567'', Text ''Kenya'')] ''P1234567'' = Some ''Kenya''
   \<and> \<not> is_project_identifier ''P1234567''
   \<and> load_project_country_mapping [(Text ''P123456'', Missing)] ''P123456'' = Some ''nan''"
  by (simp add: load_project_country_mapping_def py_str_def strip_def is_space_def pd_isna_def
      startswith_P_def isdigit_def re_sub_non_pid_def re_match_pid_def is_digit_def
      is_project_identifier_def)

section \<open>Run totals\<close>

text \<open>
  A per-file result: original path, success flag, error message, project identifier.
\<close>

type_synonym result = "string \<times> bool \<times> string option \<times> string option"

definition succeeded :: "result \<Rightarrow> bool" where
  "succeeded r = fst (snd r)"

text \<open>
  \<open>word_to_pdf.process_batch\<close>, given the results of its workers: it prints the errors and
  returns the size of the batch.
\<close>

definition process_batch :: "result list \<Rightarrow> nat" where
  "process_batch results = length results"

text \<open>Slicing \<open>files[i:i + batch_size]\<close> for \<open>i\<close> in steps of \<open>batch_size\<close>.\<close>

fun batches :: "nat \<Rightarrow> 'a list \<Rightarrow> 'a list list" where
  "batches n xs = (if n = 0 \<or> xs = [] then [] else take n xs # batches n (drop n xs))"

declare batches.simps [simp del]

text \<open>
  The batch loop of \<open>word_to_pdf.convert_folder_to_pdf\<close>, lines 583 to 611, with the two
  counters it reports: \<open>successful\<close> and \<open>failed\<close> are set to 0 and the loop body does not
  assign them.
\<close>

fun run_batches :: "result list list \<Rightarrow> nat \<times> nat \<Rightarrow> nat \<times> nat" where
  "run_batches [] (successful, failed) = (successful, failed)"
| "run_batches (batch # rest) (successful, failed) =
     (let processed = process_batch batch in run_batches rest (successful, failed))"

definition reported_counts :: "nat \<Rightarrow> result list \<Rightarrow> nat \<times> nat" where
  "reported_counts batch_size results = run_batches (batches batch_size results) (0, 0)"

text \<open>
  The loop of \<open>docx2pdf_converter.main\<close>, lines 253 to 290, which does count each result.
\<close>

fun count_results :: "result list \<Rightarrow> nat \<times> nat \<Rightarrow> nat \<times> nat" where
  "count_results [] (successful, failed) = (successful, failed)"
| "count_results (r # rs) (successful, failed) =
     (if succeeded r then count_results rs (successful + 1, failed)
      else count_results rs (successful, failed + 1))"

fun main_batches :: "result list list \<Rightarrow> nat \<times> nat \<Rightarrow> nat \<times> nat" where
  "main_batches [] acc = acc"
| "main_batches (batch # rest) acc = main_batches rest (count_results batch acc)"

definition main_counts :: "nat \<Rightarrow> result list \<Rightarrow> nat \<times> nat" where
  "main_counts batch_size results = main_batches (batches batch_size results) (0, 0)"

lemma run_batches_unchanged: "run_batches bs acc = acc"
  by (induction bs acc rule: run_batches.induct) simp_all

lemma reported_counts_zero: "reported_counts n results = (0, 0)"
  by (simp add: reported_counts_def run_batches_unchanged)

lemma count_results_eq:
  "count_results rs (s, f) =
     (s + length (filter succeeded rs), f + length (filter (\<lambda>r. \<not> succeeded r) rs))"
  by (induction rs "(s, f)" arbitrary: s f rule: count_results.induct) simp_all

lemma main_batches_eq:
  "main_batches bs (s, f) =
     (s + length (filter succeeded (concat bs)),
      f + length (filter (\<lambda>r. \<not> succeeded r) (concat bs)))"
  by (induction bs arbitrary: s f) (simp_all add: count_results_eq)

lemma concat_batches: "0 < n \<Longrightarrow> concat (batches n xs) = xs"
proof (induction n xs rule: batches.induct)
  case (1 n xs)
  show ?case
  proof (cases "xs = []")
    case True
    then show ?thesis by (simp add: batches.simps [of n "[]"])
  next
    case False
    with "1.prems" have "concat (batches n (drop n xs)) = drop n xs"
      by (intro "1.IH") simp_all
    with False "1.prems" show ?thesis
      by (simp add: batches.simps [of n xs])
  qed
qed

text \<open>The sibling script reports the right totals.\<close>

lemma main_counts_correct:
  "0 < n \<Longrightarrow> main_counts n results =
     (length (filter succeeded results), length (filter (\<lambda>r. \<not> succeeded r) results))"
  by (simp add: main_counts_def main_batches_eq concat_batches)

text \<open>
  Claim C9 fails on the code. With three files of which one fails, \<open>word_to_pdf\<close>
  reports 0 succeeded and 0 failed, while two results carry a true success flag and one a
  false one.
\<close>

theorem reported_counts_failing_input:
  "reported_counts 20
     [(''a.docx'', True, None, None),
      (''b.docx'', False, Some ''MS Word conversion failed after 3 attempts'', None),
      (''c.docx'', True, None, Some ''P123456'')] = (0, 0)
   \<and> length (filter succeeded
     [(''a.docx'', True, None, None),
      (''b.docx'', False, Some ''MS Word conversion failed after 3 attempts'', None),
      (''c.docx'', True, None, Some ''P123456'')]) = 2
   \<and> length (filter (\<lambda>r. \<not> succeeded r)
     [(''a.docx'', True, None, None),
      (''b.docx'', False, Some ''MS Word conversion failed after 3 attempts'', None),
      (''c.docx'', True, None, Some ''P123456'')]) = 1"
  by (simp add: reported_counts_zero succeeded_def)

section \<open>The file system and the external services\<close>

text \<open>
  The state of the file system: the files that exist, each with what a PDF reader finds
  in it, and a log of the paths whose previous file was replaced by a write, a copy or a
  rename. The log is not part of the program; it records overwrites so that their absence
  can be stated.
\<close>

record state =
  files :: "(string \<times> pdf) list"
  clobbered :: "string list"

definition paths :: "state \<Rightarrow> string list" where
  "paths st = map fst (files st)"

definition read_pdf :: "state \<Rightarrow> string \<Rightarrow> pdf" where
  "read_pdf st p = (case map_of (files st) p of None \<Rightarrow> Unreadable | Some doc \<Rightarrow> doc)"

text \<open>
  What the program cannot decide by itself: the platform, the converter (the PDF it
  produces for an input path, or \<open>None\<close> when every attempt fails), the language detector,
  and whether the operating system lets a rename through.
\<close>

record env =
  is_windows :: bool
  convert :: "string \<Rightarrow> pdf option"
  detect :: "string \<Rightarrow> error + string"
  rename_ok :: "string \<Rightarrow> string \<Rightarrow> bool"

text \<open>A file written at a path by a converter or a copy; an existing file is replaced.\<close>

definition write_file :: "state \<Rightarrow> string \<Rightarrow> pdf \<Rightarrow> state" where
  "write_file st p doc =
     \<lparr>files = (p, doc) # filter (\<lambda>(q, d). q \<noteq> p) (files st),
      clobbered = (if path_exists (paths st) p then p # clobbered st else clobbered st)\<rparr>"

text \<open>
  \<open>os.rename\<close> with POSIX semantics: it raises when the source is missing or the system
  refuses, and otherwise moves the file, silently replacing a file at the destination.
\<close>

definition os_rename :: "env \<Rightarrow> state \<Rightarrow> string \<Rightarrow> string \<Rightarrow> error + state" where
  "os_rename e st src dst =
     (case map_of (files st) src of
        None \<Rightarrow> Inl OSError
      | Some doc \<Rightarrow>
          if \<not> rename_ok e src dst then Inl OSError
          else if src = dst then Inr st
          else Inr \<lparr>files = (dst, doc) # filter (\<lambda>(q, d). q \<noteq> src \<and> q \<noteq> dst) (files st),
                    clobbered = (if path_exists (paths st) dst then dst # clobbered st
                                 else clobbered st)\<rparr>)"



section \<open>The reconciliation pass (\<open>word_to_pdf.apply_country_mapping_to_existing_files\<close>)\<close>

definition to_lower :: "char \<Rightarrow> char" where
  "to_lower c =
     (case map_of (zip ''ABCDEFGHIJKLMNOPQRSTUVWXYZ'' ''abcdefghijklmnopqrstuvwxyz'') c of
        Some l \<Rightarrow> l | None \<Rightarrow> c)"

text \<open>\<open>s.endswith('.pdf')\<close> and \<open>s.lower().endswith('.pdf')\<close>.\<close>

definition endswith_pdf :: "string \<Rightarrow> bool" where
  "endswith_pdf s = (4 \<le> length s \<and> drop (length s - 4) s = ''.pdf'')"

definition is_pdf_name :: "string \<Rightarrow> bool" where
  "is_pdf_name s = endswith_pdf (map to_lower s)"

text \<open>\<open>sub in s\<close> for strings.\<close>

fun contains :: "string \<Rightarrow> string \<Rightarrow> bool" where
  "contains sub [] = (sub = [])"
| "contains sub (c # cs) = (take (length sub) (c # cs) = sub \<or> contains sub cs)"

text \<open>\<open>s.split(sep)\<close> for a one-character separator; the result is never empty.\<close>

fun split_on :: "char \<Rightarrow> string \<Rightarrow> string list" where
  "split_on sep [] = [[]]"
| "split_on sep (c # cs) =
     (if c = sep then [] # split_on sep cs
      else (case split_on sep cs of [] \<Rightarrow> [[c]] | p # ps \<Rightarrow> (c # p) # ps))"

text \<open>\<open>"_".join(parts)\<close>.\<close>

fun join_parts :: "string list \<Rightarrow> string" where
  "join_parts [] = []"
| "join_parts [p] = p"
| "join_parts (p # q # ps) = p @ ''_'' @ join_parts (q # ps)"

text \<open>\<open>s.replace(" ", "_")\<close>.\<close>

definition replace_space :: "string \<Rightarrow> string" where
  "replace_space s = map (\<lambda>c. if c = CHR '' '' then CHR ''_'' else c) s"

text \<open>
  The duplicate loop, lines 1030 to 1046. It may not terminate, so it returns an option:
  \<open>None\<close> stands for the loop running forever. \<open>parts\<close> is never empty; \<open>parts[0]\<close>,
  \<open>parts[1:]\<close>, \<open>parts[1:-1]\<close> and \<open>parts[-1]\<close> are \<open>hd\<close>, \<open>tl\<close>, \<open>butlast (tl _)\<close> and \<open>last\<close>.
\<close>

partial_function (option) dedup_loop ::
  "string list \<Rightarrow> string \<Rightarrow> string \<Rightarrow> string list \<Rightarrow> string \<Rightarrow> string \<Rightarrow> string \<Rightarrow> nat
    \<Rightarrow> (string \<times> string) option" where
  "dedup_loop fs pdf_file dir parts country new_filename new_path counter =
     (if path_exists fs new_path \<and> new_path \<noteq> pdf_file
      then (let new_parts =
                  (if length parts > 1 \<and> endswith_pdf (last parts)
                   then (let base = takeWhile (\<lambda>c. c \<noteq> CHR ''.'') (last parts)
                         in if isdigit base then [hd parts, country] @ tl parts
                            else [hd parts, country] @ butlast (tl parts)
                                   @ [fmt02 counter @ ''.pdf''])
                   else [hd parts, country] @ tl parts @ [fmt02 counter @ ''.pdf'']);
                new_filename = join_parts new_parts;
                new_path = join dir new_filename
            in dedup_loop fs pdf_file dir parts country new_filename new_path (counter + 1))
      else Some (new_filename, new_path))"

text \<open>The body of the loop over the PDF files, lines 997 to 1053.\<close>

definition reconcile_file ::
  "env \<Rightarrow> (string \<times> string) list \<Rightarrow> state \<times> nat \<Rightarrow> string \<Rightarrow> (state \<times> nat) option" where
  "reconcile_file e country_mapping acc pdf_file =
     (let st = fst acc; updated_count = snd acc;
          filename = basename pdf_file;
          dir = dirname pdf_file
      in case first_match is_digit filename of
           None \<Rightarrow> Some (st, updated_count)
         | Some project_id \<Rightarrow>
             (case map_of country_mapping project_id of
                None \<Rightarrow> Some (st, updated_count)
              | Some c \<Rightarrow>
                  (let country = replace_space c
                   in if \<not> contains country filename
                      then (let parts = (if CHR ''_'' \<in> set filename then split_on CHR ''_'' filename
                                         else [take (length filename - 4) filename])
                            in if hd parts = project_id
                               then (let new_filename =
                                           (if length parts > 1
                                            then join_parts ([hd parts, country] @ tl parts)
                                            else project_id @ ''_'' @ country @ ''.pdf'');
                                         new_path = join dir new_filename
                                     in case dedup_loop (paths st) pdf_file dir parts country
                                               new_filename new_path 1 of
                                          None \<Rightarrow> None
                                        | Some (new_filename, new_path) \<Rightarrow>
                                            (case os_rename e st pdf_file new_path of
                                               Inr st' \<Rightarrow> Some (st', updated_count + 1)
                                             | Inl err \<Rightarrow> Some (st, updated_count)))
                               else Some (st, updated_count))
                      else Some (st, updated_count))))"

fun reconcile_files ::
  "env \<Rightarrow> (string \<times> string) list \<Rightarrow> state \<times> nat \<Rightarrow> string list \<Rightarrow> (state \<times> nat) option" where
  "reconcile_files e country_mapping acc [] = Some acc"
| "reconcile_files e country_mapping acc (pdf_file # rest) =
     (case reconcile_file e country_mapping acc pdf_file of
        None \<Rightarrow> None
      | Some acc' \<Rightarrow> reconcile_files e country_mapping acc' rest)"

text \<open>
  The pass: the state holds the files of the output tree, in the order of \<open>os.walk\<close>. The
  result is the new state and the number of updated files, or \<open>None\<close> when the pass does
  not return.
\<close>

definition apply_country_mapping_to_existing_files ::
  "env \<Rightarrow> state \<Rightarrow> (string \<times> string) list \<Rightarrow> (state \<times> nat) option" where
  "apply_country_mapping_to_existing_files e st country_mapping =
     (if country_mapping = [] then Some (st, 0)
      else (let pdf_files = filter (\<lambda>p. is_pdf_name (basename p)) (paths st)
            in if pdf_files = [] then Some (st, 0)
               else reconcile_files e country_mapping (st, 0) pdf_files))"

text \<open>An environment in which nothing external fails, for concrete runs.\<close>

definition env_ok :: env where
  "env_ok = \<lparr>is_windows = True, convert = (\<lambda>p. Some (Readable [])), detect = detect_en,
     rename_ok = (\<lambda>src dst. True)\<rparr>"

text \<open>
  An output tree as two runs leave it, the first without a country mapping and the second
  with one: \<open>P123456_EN_01.pdf\<close> has no country segment yet, and the name it should get
  is taken.
\<close>

definition tree_stuck :: state where
  "tree_stuck = \<lparr>files = [(''out/P123456_EN_01.pdf'', Readable []),
                          (''out/P123456_Kenya_EN_01.pdf'', Readable [])],
                 clobbered = []\<rparr>"

text \<open>
  A configuration in which the loop cannot make progress: the candidate exists, the last
  part of the name is a counter followed by \<open>.pdf\<close>, and the branch that keeps the
  counter rebuilds the same candidate.
\<close>

definition stuck ::
  "string list \<Rightarrow> string \<Rightarrow> string \<Rightarrow> string list \<Rightarrow> string \<Rightarrow> string \<Rightarrow> bool" where
  "stuck fs pdf_file dir parts country new_path =
     (path_exists fs new_path \<and> new_path \<noteq> pdf_file
      \<and> 1 < length parts \<and> endswith_pdf (last parts)
      \<and> isdigit (takeWhile (\<lambda>c. c \<noteq> CHR ''.'') (last parts))
      \<and> join dir (join_parts ([hd parts, country] @ tl parts)) = new_path)"

lemma dedup_loop_Some_not_stuck:
  "dedup_loop fs pdf_file dir parts country nf np c = Some y \<Longrightarrow>
   \<not> stuck fs pdf_file dir parts country np"
proof (rule dedup_loop.raw_induct
    [where P = "\<lambda>fs pdf_file dir parts country nf np c y. \<not> stuck fs pdf_file dir parts country np"])
  fix f :: "string list \<Rightarrow> string \<Rightarrow> string \<Rightarrow> string list \<Rightarrow> string \<Rightarrow> string \<Rightarrow> string \<Rightarrow> nat
      \<Rightarrow> (string \<times> string) option"
    and fs pdf_file dir parts country nf np c y
  assume IH: "\<And>fs pdf_file dir parts country nf np c y.
      f fs pdf_file dir parts country nf np c = Some y \<Longrightarrow> \<not> stuck fs pdf_file dir parts country np"
  assume body: "(if path_exists fs np \<and> np \<noteq> pdf_file
      then let new_parts =
                 if 1 < length parts \<and> endswith_pdf (last parts)
                 then let base = takeWhile (\<lambda>c. c \<noteq> CHR ''.'') (last parts)
                      in if isdigit base then [hd parts, country] @ tl parts
                         else [hd parts, country] @ butlast (tl parts) @ [fmt02 c @ ''.pdf'']
                 else [hd parts, country] @ tl parts @ [fmt02 c @ ''.pdf''];
               new_filename = join_parts new_parts;
               new_path = join dir new_filename
           in f fs pdf_file dir parts country new_filename new_path (c + 1)
      else Some (nf, np)) = Some y"
  show "\<not> stuck fs pdf_file dir parts country np"
  proof
    assume s: "stuck fs pdf_file dir parts country np"
    then have "f fs pdf_file dir parts country (join_parts ([hd parts, country] @ tl parts)) np (c + 1)
        = Some y"
      using body unfolding stuck_def Let_def by simp
    from IH [OF this] s show False by simp
  qed
qed

lemma dedup_loop_diverges:
  "stuck fs pdf_file dir parts country np \<Longrightarrow>
   dedup_loop fs pdf_file dir parts country nf np c = None"
  using dedup_loop_Some_not_stuck [of fs pdf_file dir parts country nf np c]
  by (cases "dedup_loop fs pdf_file dir parts country nf np c") auto

lemma stuck_example:
  "stuck [''out/P123456_EN_01.pdf'', ''out/P123456_Kenya_EN_01.pdf'']
     ''out/P123456_EN_01.pdf'' ''out'' [''P123456'', ''EN'', ''01.pdf''] ''Kenya''
     ''out/P123456_Kenya_EN_01.pdf''"
  by (simp add: stuck_def path_exists_def endswith_pdf_def isdigit_def is_digit_def join_def)

lemma parts_example:
  "basename ''out/P123456_EN_01.pdf'' = ''P123456_EN_01.pdf''"
  "dirname ''out/P123456_EN_01.pdf'' = ''out''"
  "first_match is_digit ''P123456_EN_01.pdf'' = Some ''P123456''"
  "\<not> contains ''Kenya'' ''P123456_EN_01.pdf''"
  "split_on CHR ''_'' ''P123456_EN_01.pdf'' = [''P123456'', ''EN'', ''01.pdf'']"
  "is_pdf_name ''P123456_EN_01.pdf''"
  "is_pdf_name ''P123456_Kenya_EN_01.pdf''"
  "basename ''out/P123456_Kenya_EN_01.pdf'' = ''P123456_Kenya_EN_01.pdf''"
  by (simp_all add: basename_def dirname_def head_part_def rstrip_sep_def is_digit_def
      is_pdf_name_def endswith_pdf_def to_lower_def)

lemma reconcile_file_stuck:
  "reconcile_file env_ok [(''P123456'', ''Kenya'')] (tree_stuck, 0) ''out/P123456_EN_01.pdf'' = None"
  using dedup_loop_diverges [OF stuck_example, of "''P123456_Kenya_EN_01.pdf''" 1]
  by (simp add: reconcile_file_def parts_example replace_space_def tree_stuck_def paths_def
      join_def is_digit_def)

text \<open>
  Claim C10 fails on the code. For the file \<open>out/P123456_EN_01.pdf\<close>, country \<open>Kenya\<close>
  and a directory that already holds \<open>out/P123456_Kenya_EN_01.pdf\<close>, the first candidate
  exists, the loop rebuilds the same candidate in every iteration, and it never returns.
\<close>

theorem dedup_loop_failing_input:
  "path_exists [''out/P123456_EN_01.pdf'', ''out/P123456_Kenya_EN_01.pdf'']
     ''out/P123456_Kenya_EN_01.pdf''
   \<and> join ''out'' (join_parts ([hd [''P123456'', ''EN'', ''01.pdf''], ''Kenya'']
        @ tl [''P123456'', ''EN'', ''01.pdf''])) = ''out/P123456_Kenya_EN_01.pdf''
   \<and> dedup_loop [''out/P123456_EN_01.pdf'', ''out/P123456_Kenya_EN_01.pdf'']
        ''out/P123456_EN_01.pdf'' ''out'' [''P123456'', ''EN'', ''01.pdf''] ''Kenya''
        ''P123456_Kenya_EN_01.pdf'' ''out/P123456_Kenya_EN_01.pdf'' 1 = None"
  using dedup_loop_diverges [OF stuck_example, of "''P123456_Kenya_EN_01.pdf''" 1]
  by (simp add: path_exists_def join_def)

text \<open>
  Claim C7 fails on the code. On that tree, with the mapping of \<open>P123456\<close> to \<open>Kenya\<close>,
  the first run of the pass does not return, so there is no resulting tree on which a
  second run could update 0 files.
\<close>

theorem reconciliation_failing_input:
  "apply_country_mapping_to_existing_files env_ok tree_stuck [(''P123456'', ''Kenya'')] = None"
proof -
  have "filter (\<lambda>p. is_pdf_name (basename p)) (paths tree_stuck)
      = [''out/P123456_EN_01.pdf'', ''out/P123456_Kenya_EN_01.pdf'']"
    by (simp add: paths_def tree_stuck_def parts_example)
  then show ?thesis
    by (simp add: apply_country_mapping_to_existing_files_def reconcile_file_stuck)
qed

section \<open>The conversion pipeline of \<open>word_to_pdf\<close>\<close>

text \<open>
  \<open>Path(p).stem\<close>: the last component without its suffix; the suffix starts at the last
  dot, unless that dot is the first or the last character of the component.
\<close>

definition path_stem :: "string \<Rightarrow> string" where
  "path_stem p =
     (let name = basename p;
          root = rev (tl (dropWhile (\<lambda>c. c \<noteq> CHR ''.'') (rev name)));
          after = rev (takeWhile (\<lambda>c. c \<noteq> CHR ''.'') (rev name))
      in if CHR ''.'' \<in> set name \<and> root \<noteq> [] \<and> after \<noteq> [] then root else name)"



text \<open>
  \<open>extract_project_id_from_filename\<close>: the first match of \<open>P\d{6}[-_]\<close>, without its last
  character.
\<close>

fun first_match_sep :: "string \<Rightarrow> string option" where
  "first_match_sep [] = None"
| "first_match_sep (c # cs) =
     (if c = CHR ''P'' \<and> 7 \<le> length cs \<and> list_all is_digit (take 6 cs)
         \<and> (cs ! 6 = CHR ''-'' \<or> cs ! 6 = CHR ''_'')
      then Some (c # take 6 cs) else first_match_sep cs)"

definition extract_project_id_from_filename :: "string \<Rightarrow> string option" where
  "extract_project_id_from_filename filename = first_match_sep filename"

text \<open>Python truth of an optional string: \<open>None\<close> and the empty string are false.\<close>

definition truthy :: "string option \<Rightarrow> bool" where
  "truthy x = (case x of None \<Rightarrow> False | Some s \<Rightarrow> s \<noteq> [])"

text \<open>The duplicate loop for the base name, lines 274 to 282 (and 394 to 402).\<close>

function base_name_loop :: "string list \<Rightarrow> string \<Rightarrow> string \<Rightarrow> nat \<Rightarrow> string \<times> string" where
  "base_name_loop fs target_dir project_id counter =
     (let temp_name = project_id @ ''_'' @ fmt02 counter @ ''.pdf'';
          temp_path = join target_dir temp_name
      in if \<not> path_exists fs temp_path then (temp_path, temp_name)
         else base_name_loop fs target_dir project_id (counter + 1))"
  by pat_completeness auto
termination
proof (relation "measure (\<lambda>(fs, target_dir, project_id, counter).
    card {k. counter \<le> k \<and> join target_dir (project_id @ ''_'' @ fmt02 k @ ''.pdf'') \<in> set fs})")
  show "wf (measure (\<lambda>(fs, target_dir, project_id, counter).
    card {k. counter \<le> k \<and> join target_dir (project_id @ ''_'' @ fmt02 k @ ''.pdf'') \<in> set fs}))"
    by simp
next
  fix fs :: "string list" and target_dir project_id :: string and counter :: nat and x xa
  assume x: "x = project_id @ ''_'' @ fmt02 counter @ ''.pdf''" and xa: "xa = join target_dir x"
    and ex: "\<not> \<not> path_exists fs xa"
  have inj: "\<And>j k. join target_dir (project_id @ CHR ''_'' # fmt02 j @ ''.pdf'')
      = join target_dir (project_id @ CHR ''_'' # fmt02 k @ ''.pdf'') \<Longrightarrow> j = k"
    by (rule join_cand_inject [of fmt02]) (auto dest: fmt02_inject)
  have mem: "join target_dir (project_id @ CHR ''_'' # fmt02 counter @ ''.pdf'') \<in> set fs"
    using x xa ex by (simp add: path_exists_def)
  show "((fs, target_dir, project_id, counter + 1), (fs, target_dir, project_id, counter))
    \<in> measure (\<lambda>(fs, target_dir, project_id, counter).
        card {k. counter \<le> k \<and> join target_dir (project_id @ ''_'' @ fmt02 k @ ''.pdf'') \<in> set fs})"
    using card_cands_less [of "\<lambda>k. join target_dir (project_id @ CHR ''_'' # fmt02 k @ ''.pdf'')"
        counter fs, OF inj mem]
    by simp
qed

declare base_name_loop.simps [simp del]

text \<open>The stem of the final name, lines 305 to 308, and of its numbered variants.\<close>

definition final_stem :: "string \<Rightarrow> string \<Rightarrow> string \<Rightarrow> string" where
  "final_stem project_id country language_suffix =
     (if country \<noteq> [] then project_id @ ''_'' @ country @ ''_'' @ language_suffix
      else project_id @ ''_'' @ language_suffix)"

text \<open>
  The duplicate loop for the final name, lines 314 to 325 (and 428 to 439): it also stops
  at the path the file already has.
\<close>

function final_name_loop ::
  "string list \<Rightarrow> string \<Rightarrow> string \<Rightarrow> string \<Rightarrow> string \<Rightarrow> string \<Rightarrow> nat \<Rightarrow> string \<times> string" where
  "final_name_loop fs target_dir project_id country language_suffix pdf_path counter =
     (let temp_name = final_stem project_id country language_suffix @ ''_'' @ fmt02 counter @ ''.pdf'';
          temp_path = join target_dir temp_name
      in if \<not> path_exists fs temp_path \<or> temp_path = pdf_path then (temp_path, temp_name)
         else final_name_loop fs target_dir project_id country language_suffix pdf_path
                (counter + 1))"
  by pat_completeness auto
termination
proof (relation "measure (\<lambda>(fs, target_dir, project_id, country, language_suffix, pdf_path, counter).
    card {k. counter \<le> k \<and> join target_dir
      (final_stem project_id country language_suffix @ ''_'' @ fmt02 k @ ''.pdf'') \<in> set fs})")
  show "wf (measure (\<lambda>(fs, target_dir, project_id, country, language_suffix, pdf_path, counter).
    card {k. counter \<le> k \<and> join target_dir
      (final_stem project_id country language_suffix @ ''_'' @ fmt02 k @ ''.pdf'') \<in> set fs}))"
    by simp
next
  fix fs :: "string list" and target_dir project_id country language_suffix pdf_path :: string
    and counter :: nat and x xa
  assume x: "x = final_stem project_id country language_suffix @ ''_'' @ fmt02 counter @ ''.pdf''"
    and xa: "xa = join target_dir x"
    and ex: "\<not> (\<not> path_exists fs xa \<or> xa = pdf_path)"
  let ?n = "final_stem project_id country language_suffix"
  have inj: "\<And>j k. join target_dir (?n @ CHR ''_'' # fmt02 j @ ''.pdf'')
      = join target_dir (?n @ CHR ''_'' # fmt02 k @ ''.pdf'') \<Longrightarrow> j = k"
    by (rule join_cand_inject [of fmt02]) (auto dest: fmt02_inject)
  have mem: "join target_dir (?n @ CHR ''_'' # fmt02 counter @ ''.pdf'') \<in> set fs"
    using x xa ex by (simp add: path_exists_def)
  show "((fs, target_dir, project_id, country, language_suffix, pdf_path, counter + 1),
      (fs, target_dir, project_id, country, language_suffix, pdf_path, counter))
    \<in> measure (\<lambda>(fs, target_dir, project_id, country, language_suffix, pdf_path, counter).
        card {k. counter \<le> k \<and> join target_dir
          (final_stem project_id country language_suffix @ ''_'' @ fmt02 k @ ''.pdf'') \<in> set fs})"
    using card_cands_less [of "\<lambda>k. join target_dir (?n @ CHR ''_'' # fmt02 k @ ''.pdf'')"
        counter fs, OF inj mem]
    by simp
qed

declare final_name_loop.simps [simp del]

text \<open>
  The base name, lines 269 to 282 (and 389 to 402): \<open>id.pdf\<close>, or its first free numbered
  variant when that path exists.
\<close>

definition base_target :: "string list \<Rightarrow> string \<Rightarrow> string \<Rightarrow> string" where
  "base_target fs target_dir project_id =
     (let base_pid_filename = project_id @ ''.pdf'';
          base_pid_path = join target_dir base_pid_filename
      in if path_exists fs base_pid_path
         then fst (base_name_loop fs target_dir project_id 1)
         else base_pid_path)"

text \<open>
  The final name, lines 304 to 325 (and 418 to 439): identifier, country when there is
  one, and language; numbered when that path exists and is not the file itself.
\<close>

definition final_target ::
  "string list \<Rightarrow> string \<Rightarrow> string \<Rightarrow> string \<Rightarrow> string \<Rightarrow> string \<Rightarrow> string" where
  "final_target fs target_dir project_id country language_suffix pdf_path =
     (let pid_filename = final_stem project_id country language_suffix @ ''.pdf'';
          pid_path = join target_dir pid_filename
      in if path_exists fs pid_path \<and> pid_path \<noteq> pdf_path
         then fst (final_name_loop fs target_dir project_id country language_suffix pdf_path 1)
         else pid_path)"

text \<open>
  The directory of the output, lines 228 to 234; \<open>rel_path\<close> is the directory of the
  input relative to the input directory.
\<close>

definition target_dir_of :: "string \<Rightarrow> string \<Rightarrow> string" where
  "target_dir_of output_dir rel_path =
     (if rel_path \<noteq> [] \<and> rel_path \<noteq> ''.'' then join output_dir rel_path else output_dir)"

text \<open>The country segment, lines 298 to 302: empty when there is no mapping or no entry.\<close>

definition country_of :: "(string \<times> string) list \<Rightarrow> string \<Rightarrow> string" where
  "country_of country_mapping project_id =
     (if country_mapping \<noteq> []
      then (case map_of country_mapping project_id of
              Some c \<Rightarrow> replace_space c
            | None \<Rightarrow> [])
      else [])"

text \<open>
  Lines 268 to 334 of \<open>process_file\<close>: the two renames of a converted PDF in which an
  identifier was found.
\<close>

definition rename_converted ::
  "env \<Rightarrow> state \<Rightarrow> string \<Rightarrow> string \<Rightarrow> string \<Rightarrow> string \<Rightarrow> (string \<times> string) list
    \<Rightarrow> state \<times> result" where
  "rename_converted e st file_path target_dir pdf_path project_id country_mapping =
     (let base_pid_path = base_target (paths st) target_dir project_id
      in case os_rename e st pdf_path base_pid_path of
           Inl err \<Rightarrow> (st, (file_path, True, None, None))
         | Inr st1 \<Rightarrow>
             (let pdf_path = base_pid_path;
                  language_suffix = detect_language (detect e) (read_pdf st1 pdf_path) 3;
                  country = country_of country_mapping project_id;
                  pid_path = final_target (paths st1) target_dir project_id country
                               language_suffix pdf_path
              in case os_rename e st1 pdf_path pid_path of
                   Inr st2 \<Rightarrow> (st2, (file_path, True, None, Some project_id))
                 | Inl err \<Rightarrow> (st1, (file_path, True, None, Some project_id))))"

text \<open>
  \<open>word_to_pdf.process_file\<close>. Every exception inside it ends in a result with a false
  success flag; the only places that raise are the platform test and the converter.
\<close>

definition process_file ::
  "env \<Rightarrow> state \<Rightarrow> string \<Rightarrow> string \<Rightarrow> string \<Rightarrow> bool \<Rightarrow> (string \<times> string) list
    \<Rightarrow> state \<times> result" where
  "process_file e st file_path output_dir rel_path rename_with_pid country_mapping =
     (let target_dir = target_dir_of output_dir rel_path;
          output_name = path_stem file_path @ ''.pdf'';
          output_path = join target_dir output_name;
          output_path =
            (if path_exists (paths st) output_path
             then get_unique_filename (paths st) output_path else output_path)
      in if \<not> is_windows e
         then (st, (file_path, False, Some ''Microsoft Word conversion requires Windows'', None))
         else (case convert e file_path of
                 None \<Rightarrow> (st, (file_path, False, Some ''MS Word conversion failed'', None))
               | Some doc \<Rightarrow>
                   (let st1 = write_file st output_path doc;
                        pdf_path = output_path
                    in if rename_with_pid \<and> pdf_path \<noteq> []
                       then (let project_id = extract_project_id (read_pdf st1 pdf_path) 10;
                                 project_id =
                                   (if \<not> truthy project_id
                                    then extract_project_id_from_filename (basename file_path)
                                    else project_id)
                             in if truthy project_id
                                then rename_converted e st1 file_path target_dir pdf_path
                                       (the project_id) country_mapping
                                else (st1, (file_path, True, None, None)))
                       else (st1, (file_path, True, None, None)))))"




section \<open>The variants: \<open>PID_RENAME\<close> and \<open>docx2pdf_converter\<close>\<close>







section \<open>No stage of \<open>word_to_pdf\<close> overwrites a file\<close>



lemma path_exists_map_of: "path_exists (paths st) p \<longleftrightarrow> map_of (files st) p \<noteq> None"
  by (simp add: path_exists_def paths_def map_of_eq_None_iff)



























text \<open>
  A converter whose PDF carries the identifier \<open>P123456\<close>, on a system that refuses every
  rename, and on one that lets through only renames of \<open>out/report.pdf\<close>.
\<close>

definition env_rename_fails :: env where
  "env_rename_fails = \<lparr>is_windows = True,
     convert = (\<lambda>p. Some (Readable [Some ''Project P123456 appraisal''])),
     detect = detect_en, rename_ok = (\<lambda>src dst. False)\<rparr>"

definition env_final_rename_fails :: env where
  "env_final_rename_fails = \<lparr>is_windows = True,
     convert = (\<lambda>p. Some (Readable [Some ''Project P123456 appraisal''])),
     detect = detect_en, rename_ok = (\<lambda>src dst. src = ''out/report.pdf'')\<rparr>"

definition empty_tree :: state where
  "empty_tree = \<lparr>files = [], clobbered = []\<rparr>"

lemma stem_report:
  "path_stem ''in/report.docx'' = ''report''"
  "basename ''in/report.docx'' = ''report.docx''"
  by (simp_all add: path_stem_def basename_def)

lemma pid_report:
  "extract_project_id (Readable [Some ''Project P123456 appraisal'']) 10 = Some ''P123456''"
  by (simp add: extract_project_id_def is_pid_char_def is_digit_def replace_O_def)

lemma first_rename_failure_drops_identifier:
  "os_rename e st pp (base_target (paths st) td pid) = Inl err \<Longrightarrow>
   rename_converted e st fp td pp pid cm = (st, (fp, True, None, None))"
  by (simp add: rename_converted_def Let_def)

text \<open>
  Claim C8 fails on the code. The conversion succeeds and the identifier \<open>P123456\<close> is
  found in the PDF; when the first rename fails, the result has a true success flag and
  the file stays at \<open>out/report.pdf\<close>, but the identifier is reported as \<open>None\<close>. When
  only the final rename fails, the identifier is reported.
\<close>

theorem rename_failure_failing_input:
  "extract_project_id (Readable [Some ''Project P123456 appraisal'']) 10 = Some ''P123456''
   \<and> process_file env_rename_fails empty_tree ''in/report.docx'' ''out'' [] True []
     = (\<lparr>files = [(''out/report.pdf'', Readable [Some ''Project P123456 appraisal''])],
         clobbered = []\<rparr>,
        (''in/report.docx'', True, None, None))
   \<and> process_file env_final_rename_fails empty_tree ''in/report.docx'' ''out'' [] True []
     = (\<lparr>files = [(''out/P123456.pdf'', Readable [Some ''Project P123456 appraisal''])],
         clobbered = []\<rparr>,
        (''in/report.docx'', True, None, Some ''P123456''))"
  by (simp add: process_file_def env_rename_fails_def env_final_rename_fails_def empty_tree_def
      target_dir_of_def stem_report pid_report join_def path_exists_def paths_def write_file_def
      read_pdf_def truthy_def rename_converted_def os_rename_def base_target_def
      final_target_def final_stem_def country_of_def detect_language_def Let_def)

section \<open>What remains of a file without identifier\<close>
























section \<open>How far the reconciliation pass is idempotent\<close>

lemma first_match_shape:
  "first_match cls t = Some m \<Longrightarrow>
   \<exists>rest. m = CHR ''P'' # rest \<and> length rest = 6 \<and> list_all cls rest"
proof (induction t)
  case Nil
  then show ?case by simp
next
  case (Cons c cs)
  then show ?case
    by (auto split: if_splits)
qed

lemma first_match_prefix:
  "length rest = 6 \<Longrightarrow> list_all cls rest \<Longrightarrow>
   first_match cls ((CHR ''P'' # rest) @ s) = Some (CHR ''P'' # rest)"
  by simp

lemma contains_append: "contains sub (a @ sub @ b)"
proof (induction a)
  case Nil
  have "take (length sub) (sub @ b) = sub" by simp
  then show ?case by (cases "sub @ b") auto
next
  case (Cons c a)
  then show ?case by simp
qed

lemma contains_set: "contains sub s \<Longrightarrow> set sub \<subseteq> set s"
proof (induction s)
  case Nil
  then show ?case by simp
next
  case (Cons c cs)
  show ?case
  proof (cases "take (length sub) (c # cs) = sub")
    case True
    then have "set sub \<subseteq> set (c # cs)"
      by (metis set_take_subset)
    then show ?thesis .
  next
    case False
    with Cons show ?thesis by auto
  qed
qed

lemma basename_no_sep: "CHR ''/'' \<notin> set (basename p)"
proof -
  have "\<forall>c\<in>set (takeWhile (\<lambda>c. c \<noteq> CHR ''/'') (rev p)). c \<noteq> CHR ''/''"
    by (auto dest: set_takeWhileD)
  then show ?thesis by (auto simp: basename_def)
qed

lemma basename_append_sep:
  assumes "CHR ''/'' \<notin> set n"
  shows "basename (d @ CHR ''/'' # n) = n"
proof -
  have "takeWhile (\<lambda>c. c \<noteq> CHR ''/'') (rev n @ CHR ''/'' # rev d) = rev n"
    using assms by (subst takeWhile_append2) auto
  then show ?thesis by (simp add: basename_def)
qed

lemma basename_whole:
  assumes "CHR ''/'' \<notin> set n"
  shows "basename n = n"
proof -
  have eq: "takeWhile (\<lambda>c. c \<noteq> CHR ''/'') (rev n) = rev n"
    using assms by (intro takeWhile_eq_all_conv [THEN iffD2]) auto
  show ?thesis unfolding basename_def eq by simp
qed

lemma basename_join:
  assumes "CHR ''/'' \<notin> set n"
  shows "basename (join d n) = n"
proof -
  have nohd: "\<not> (n \<noteq> [] \<and> hd n = CHR ''/'')"
    using assms by (cases n) auto
  show ?thesis
  proof (cases "d = []")
    case True
    with nohd assms show ?thesis by (auto simp: join_def basename_whole)
  next
    case False
    show ?thesis
    proof (cases "last d = CHR ''/''")
      case True
      with False have "d = butlast d @ [CHR ''/'']"
        by (metis append_butlast_last_id)
      then have "join d n = butlast d @ CHR ''/'' # n"
        using nohd True False by (auto simp: join_def)
      with assms show ?thesis by (simp add: basename_append_sep)
    next
      case False
      with \<open>d \<noteq> []\<close> nohd have "join d n = d @ CHR ''/'' # n"
        by (auto simp: join_def)
      with assms show ?thesis by (simp add: basename_append_sep)
    qed
  qed
qed

lemma split_on_nonempty: "split_on sep s \<noteq> []"
  by (induction s) (auto split: list.splits)

lemma set_split_on: "set (concat (split_on sep s)) \<subseteq> set s"
proof (induction s)
  case Nil
  then show ?case by simp
next
  case (Cons c cs)
  obtain p ps where sp: "split_on sep cs = p # ps"
    by (cases "split_on sep cs") (auto simp: split_on_nonempty)
  with Cons.IH have "set p \<union> set (concat ps) \<subseteq> set cs" by simp
  with sp show ?case by auto
qed

lemma digit_char_is_digit: "d < 10 \<Longrightarrow> is_digit (digit_char d)"
proof -
  assume "d < 10"
  then consider "d = 0" | "d = 1" | "d = 2" | "d = 3" | "d = 4" | "d = 5" | "d = 6"
    | "d = 7" | "d = 8" | "d = 9"
    by atomize_elim arith
  then show ?thesis
    by cases (simp_all add: is_digit_def digit_char_def)
qed

lemma str_nat_digits: "list_all is_digit (str_nat n)"
proof (induction n rule: str_nat.induct)
  case (1 n)
  show ?case
  proof (cases "n < 10")
    case True
    then show ?thesis
      by (simp add: str_nat.simps [of n] digit_char_is_digit)
  next
    case False
    then show ?thesis
      using "1.IH" by (simp add: str_nat.simps [of n] digit_char_is_digit)
  qed
qed

lemma is_digit_not_sep: "is_digit c \<Longrightarrow> c \<noteq> CHR ''/''"
  by (auto simp: is_digit_def)

lemma digits_no_sep: "list_all is_digit s \<Longrightarrow> CHR ''/'' \<notin> set s"
  by (auto simp: list_all_iff dest: is_digit_not_sep)

lemma fmt02_no_sep: "CHR ''/'' \<notin> set (fmt02 c)"
  using digits_no_sep [OF str_nat_digits [of c]] by (simp add: fmt02_def)

lemma set_join_parts: "set (join_parts xs) \<subseteq> set (concat xs) \<union> {CHR ''_''}"
  by (induction xs rule: join_parts.induct) auto

lemma join_parts_two:
  "\<exists>tail. join_parts (a # b # X) = a @ ''_'' @ b @ tail
     \<and> set tail \<subseteq> set (concat X) \<union> {CHR ''_''}"
proof (cases X)
  case Nil
  then show ?thesis by simp
next
  case (Cons x X')
  have "join_parts (a # b # x # X') = a @ ''_'' @ b @ (''_'' @ join_parts (x # X'))"
    by simp
  moreover have "set (''_'' @ join_parts (x # X')) \<subseteq> set (concat (x # X')) \<union> {CHR ''_''}"
    using set_join_parts [of "x # X'"] by auto
  ultimately show ?thesis using Cons by blast
qed

text \<open>
  The names the pass gives: the identifier, the country, and a rest without separator,
  in the directory of the file.
\<close>

definition tagged :: "string \<Rightarrow> string \<Rightarrow> string \<Rightarrow> string \<Rightarrow> string \<Rightarrow> bool" where
  "tagged dir pid country nf np =
     (np = join dir nf
      \<and> (\<exists>tail. nf = pid @ ''_'' @ country @ tail \<and> CHR ''/'' \<notin> set tail))"

lemma tagged_join_parts:
  assumes "CHR ''/'' \<notin> set (concat X)"
  shows "tagged dir pid country (join_parts ([pid, country] @ X))
    (join dir (join_parts ([pid, country] @ X)))"
proof -
  from join_parts_two [of pid country X] obtain tail where
    t: "join_parts (pid # country # X) = pid @ ''_'' @ country @ tail"
    "set tail \<subseteq> set (concat X) \<union> {CHR ''_''}"
    by blast
  from t(2) assms have "CHR ''/'' \<notin> set tail" by auto
  with t(1) show ?thesis by (auto simp: tagged_def)
qed

lemma dedup_loop_tagged:
  "dedup_loop fs pdf_file dir parts country nf np c = Some y \<Longrightarrow>
   CHR ''/'' \<notin> set (concat (tl parts)) \<longrightarrow> tagged dir (hd parts) country nf np \<longrightarrow>
   tagged dir (hd parts) country (fst y) (snd y)"
proof (rule dedup_loop.raw_induct
    [where P = "\<lambda>fs pdf_file dir parts country nf np c y.
      CHR ''/'' \<notin> set (concat (tl parts)) \<longrightarrow> tagged dir (hd parts) country nf np \<longrightarrow>
      tagged dir (hd parts) country (fst y) (snd y)"])
  fix f :: "string list \<Rightarrow> string \<Rightarrow> string \<Rightarrow> string list \<Rightarrow> string \<Rightarrow> string \<Rightarrow> string \<Rightarrow> nat
      \<Rightarrow> (string \<times> string) option"
    and fs pdf_file dir parts country nf np c y
  assume IH: "\<And>fs pdf_file dir parts country nf np c y.
      f fs pdf_file dir parts country nf np c = Some y \<Longrightarrow>
      CHR ''/'' \<notin> set (concat (tl parts)) \<longrightarrow> tagged dir (hd parts) country nf np \<longrightarrow>
      tagged dir (hd parts) country (fst y) (snd y)"
  assume body: "(if path_exists fs np \<and> np \<noteq> pdf_file
      then let new_parts =
                 if 1 < length parts \<and> endswith_pdf (last parts)
                 then let base = takeWhile (\<lambda>c. c \<noteq> CHR ''.'') (last parts)
                      in if isdigit base then [hd parts, country] @ tl parts
                         else [hd parts, country] @ butlast (tl parts) @ [fmt02 c @ ''.pdf'']
                 else [hd parts, country] @ tl parts @ [fmt02 c @ ''.pdf''];
               new_filename = join_parts new_parts;
               new_path = join dir new_filename
           in f fs pdf_file dir parts country new_filename new_path (c + 1)
      else Some (nf, np)) = Some y"
  show "CHR ''/'' \<notin> set (concat (tl parts)) \<longrightarrow> tagged dir (hd parts) country nf np \<longrightarrow>
      tagged dir (hd parts) country (fst y) (snd y)"
  proof (intro impI)
    assume nosep: "CHR ''/'' \<notin> set (concat (tl parts))" and tg: "tagged dir (hd parts) country nf np"
    show "tagged dir (hd parts) country (fst y) (snd y)"
    proof (cases "path_exists fs np \<and> np \<noteq> pdf_file")
      case False
      with body have "y = (nf, np)" by simp
      with tg show ?thesis by simp
    next
      case True
      define X where "X =
        (if 1 < length parts \<and> endswith_pdf (last parts)
         then (if isdigit (takeWhile (\<lambda>c. c \<noteq> CHR ''.'') (last parts)) then tl parts
               else butlast (tl parts) @ [fmt02 c @ ''.pdf''])
         else tl parts @ [fmt02 c @ ''.pdf''])"
      have bl: "set (concat (butlast (tl parts))) \<subseteq> set (concat (tl parts))"
        by (auto dest: in_set_butlastD)
      have X: "CHR ''/'' \<notin> set (concat X)"
        using nosep bl fmt02_no_sep [of c] by (auto simp: X_def)
      from True body have "f fs pdf_file dir parts country (join_parts ([hd parts, country] @ X))
          (join dir (join_parts ([hd parts, country] @ X))) (c + 1) = Some y"
        by (auto simp: Let_def X_def split: if_splits)
      from IH [OF this] nosep tagged_join_parts [OF X] show ?thesis by blast
    qed
  qed
qed

text \<open>The parts of a file name, lines 1012 to 1016.\<close>

definition name_parts :: "string \<Rightarrow> string list" where
  "name_parts filename =
     (if CHR ''_'' \<in> set filename then split_on CHR ''_'' filename
      else [take (length filename - 4) filename])"

text \<open>
  The names for which the pass attempts a rename: an identifier with a country in the
  mapping, the country not yet in the name, and the identifier as first part.
\<close>

definition wants :: "(string \<times> string) list \<Rightarrow> string \<Rightarrow> bool" where
  "wants country_mapping filename =
     (case first_match is_digit filename of
        None \<Rightarrow> False
      | Some project_id \<Rightarrow>
          (case map_of country_mapping project_id of
             None \<Rightarrow> False
           | Some c \<Rightarrow> \<not> contains (replace_space c) filename
                        \<and> hd (name_parts filename) = project_id))"

lemma reconcile_file_skips:
  assumes "\<not> wants cm (basename f)"
  shows "reconcile_file e cm (st, n) f = Some (st, n)"
proof (cases "first_match is_digit (basename f)")
  case None
  then show ?thesis by (simp add: reconcile_file_def Let_def)
next
  case (Some pid)
  show ?thesis
  proof (cases "map_of cm pid")
    case None
    with Some show ?thesis by (simp add: reconcile_file_def Let_def)
  next
    case c: (Some c)
    show ?thesis
    proof (cases "contains (replace_space c) (basename f)")
      case True
      with Some c show ?thesis by (simp add: reconcile_file_def Let_def)
    next
      case False
      with assms Some c have "hd (name_parts (basename f)) \<noteq> pid"
        by (simp add: wants_def)
      with Some c False show ?thesis
        by (simp add: reconcile_file_def name_parts_def Let_def)
    qed
  qed
qed

text \<open>The first candidate, lines 1021 to 1025.\<close>

definition first_candidate :: "string list \<Rightarrow> string \<Rightarrow> string \<Rightarrow> string" where
  "first_candidate parts project_id country =
     (if length parts > 1 then join_parts ([hd parts, country] @ tl parts)
      else project_id @ ''_'' @ country @ ''.pdf'')"

lemma reconcile_file_wants:
  assumes "first_match is_digit (basename f) = Some pid" and "map_of cm pid = Some c"
    and "\<not> contains (replace_space c) (basename f)"
    and "hd (name_parts (basename f)) = pid"
  shows "reconcile_file e cm (st, n) f =
    (case dedup_loop (paths st) f (dirname f) (name_parts (basename f)) (replace_space c)
            (first_candidate (name_parts (basename f)) pid (replace_space c))
            (join (dirname f) (first_candidate (name_parts (basename f)) pid (replace_space c)))
            1 of
       None \<Rightarrow> None
     | Some (nf, np) \<Rightarrow>
         (case os_rename e st f np of
            Inr st' \<Rightarrow> Some (st', n + 1)
          | Inl err \<Rightarrow> Some (st, n)))"
  using assms
  by (simp add: reconcile_file_def name_parts_def first_candidate_def Let_def)

lemma name_parts_no_sep:
  assumes "CHR ''/'' \<notin> set filename"
  shows "CHR ''/'' \<notin> set (concat (name_parts filename))"
proof (cases "CHR ''_'' \<in> set filename")
  case True
  with set_split_on [of "CHR ''_''" filename] assms show ?thesis
    by (auto simp: name_parts_def)
next
  case False
  with assms show ?thesis
    by (auto simp: name_parts_def dest: in_set_takeD)
qed

lemma concat_tl_subset: "set (concat (tl xs)) \<subseteq> set (concat xs)"
  by (cases xs) auto

lemma replace_space_no_sep: "CHR ''/'' \<notin> set c \<Longrightarrow> CHR ''/'' \<notin> set (replace_space c)"
  by (auto simp: replace_space_def)

lemma tagged_not_wants:
  assumes tg: "tagged dir pid (replace_space c) nf np"
    and fm: "first_match is_digit filename = Some pid"
    and mp: "map_of cm pid = Some c"
    and nosep: "CHR ''/'' \<notin> set c"
  shows "basename np = nf \<and> \<not> wants cm nf \<and> contains (replace_space c) nf"
proof -
  from tg obtain tail where nf: "nf = pid @ ''_'' @ replace_space c @ tail"
    and tail: "CHR ''/'' \<notin> set tail" and np: "np = join dir nf"
    by (auto simp: tagged_def)
  from first_match_shape [OF fm] obtain rest where
    pid: "pid = CHR ''P'' # rest" "length rest = 6" "list_all is_digit rest"
    by blast
  have "CHR ''/'' \<notin> set pid"
    using pid digits_no_sep [of rest] by auto
  with nf tail replace_space_no_sep [OF nosep] have "CHR ''/'' \<notin> set nf"
    by auto
  with np have b: "basename np = nf" by (simp add: basename_join)
  have "first_match is_digit ((CHR ''P'' # rest) @ (''_'' @ replace_space c @ tail))
      = Some (CHR ''P'' # rest)"
    using pid(2,3) by (rule first_match_prefix)
  with nf pid(1) have fm': "first_match is_digit nf = Some pid" by simp
  have c: "contains (replace_space c) nf"
    using contains_append [of "replace_space c" "pid @ ''_''" tail] nf by simp
  with fm' mp have "\<not> wants cm nf" by (simp add: wants_def)
  with b c show ?thesis by simp
qed

lemma paths_os_rename:
  assumes "os_rename e st src dst = Inr st'" and "src \<noteq> dst"
  shows "paths st' = dst # filter (\<lambda>q. q \<noteq> src \<and> q \<noteq> dst) (paths st)"
proof -
  from assms obtain doc where
    "st' = \<lparr>files = (dst, doc) # filter (\<lambda>(q, d). q \<noteq> src \<and> q \<noteq> dst) (files st),
        clobbered = (if path_exists (paths st) dst then dst # clobbered st else clobbered st)\<rparr>"
    by (auto simp: os_rename_def split: option.splits if_splits)
  then have "paths st' = dst # map fst (filter (\<lambda>(q, d). q \<noteq> src \<and> q \<noteq> dst) (files st))"
    by (simp add: paths_def)
  also have "map fst (filter (\<lambda>(q, d). q \<noteq> src \<and> q \<noteq> dst) (files st))
      = filter (\<lambda>q. q \<noteq> src \<and> q \<noteq> dst) (map fst (files st))"
    by (induction "files st" arbitrary: st) (auto simp: filter_map comp_def split_def)
  finally show ?thesis by (simp add: paths_def)
qed

lemma first_candidate_tagged:
  assumes "hd parts = pid" and "CHR ''/'' \<notin> set (concat (tl parts))"
  shows "tagged dir pid country (first_candidate parts pid country)
    (join dir (first_candidate parts pid country))"
proof (cases "length parts > 1")
  case True
  with tagged_join_parts [OF assms(2), of dir pid country] assms(1) show ?thesis
    by (simp add: first_candidate_def)
next
  case False
  then show ?thesis
    by (auto simp: first_candidate_def tagged_def)
qed

lemma reconcile_file_step:
  assumes ok: "\<And>src dst. rename_ok e src dst"
    and nosep: "\<forall>c\<in>snd ` set cm. CHR ''/'' \<notin> set c"
    and res: "reconcile_file e cm (st, n) f = Some (st', n')"
    and mem: "f \<in> set (paths st)" and dist: "distinct (paths st)"
  shows "distinct (paths st')
    \<and> (\<forall>q\<in>set (paths st). q \<noteq> f \<longrightarrow> q \<in> set (paths st'))
    \<and> (\<forall>p\<in>set (paths st'). wants cm (basename p) \<longrightarrow> p \<in> set (paths st) \<and> p \<noteq> f)"
proof (cases "wants cm (basename f)")
  case False
  with res have "st' = st" by (simp add: reconcile_file_skips)
  with False dist show ?thesis by auto
next
  case True
  then obtain pid c where fm: "first_match is_digit (basename f) = Some pid"
    and mp: "map_of cm pid = Some c"
    and nc: "\<not> contains (replace_space c) (basename f)"
    and hd: "hd (name_parts (basename f)) = pid"
    by (auto simp: wants_def split: option.splits)
  let ?parts = "name_parts (basename f)"
  let ?country = "replace_space c"
  let ?nf0 = "first_candidate ?parts pid ?country"
  from mp have "(pid, c) \<in> set cm" by (rule map_of_SomeD)
  with nosep have csep: "CHR ''/'' \<notin> set c" by force
  have psep: "CHR ''/'' \<notin> set (concat (tl ?parts))"
    using name_parts_no_sep [OF basename_no_sep [of f]] concat_tl_subset [of ?parts] by auto
  from res reconcile_file_wants [OF fm mp nc hd, of e st n]
  obtain nf np where loop: "dedup_loop (paths st) f (dirname f) ?parts ?country ?nf0
      (join (dirname f) ?nf0) 1 = Some (nf, np)"
    and ren: "(case os_rename e st f np of Inr st' \<Rightarrow> Some (st', n + 1) | Inl err \<Rightarrow> Some (st, n))
      = Some (st', n')"
    by (auto split: option.splits)
  have "tagged (dirname f) (hd ?parts) ?country nf np"
    using dedup_loop_tagged [OF loop] psep first_candidate_tagged [OF hd psep, of "dirname f" ?country]
      hd by simp
  then have tg: "tagged (dirname f) pid ?country nf np" using hd by simp
  from tagged_not_wants [OF tg fm mp csep]
  have b: "basename np = nf" and nw: "\<not> wants cm nf" and ct: "contains ?country nf"
    by simp_all
  from nc ct b have ne: "f \<noteq> np" by auto
  from mem have "map_of (files st) f \<noteq> None"
    using path_exists_map_of [of st f] by (simp add: path_exists_def)
  then obtain doc where doc: "map_of (files st) f = Some doc"
    by blast
  with ok ne obtain st2 where r2: "os_rename e st f np = Inr st2"
    by (auto simp: os_rename_def)
  with ren have st': "st' = st2" by simp
  from paths_os_rename [OF r2 ne] st'
  have p: "paths st' = np # filter (\<lambda>q. q \<noteq> f \<and> q \<noteq> np) (paths st)" by simp
  have "distinct (paths st')"
    using dist by (simp add: p)
  moreover have "\<forall>q\<in>set (paths st). q \<noteq> f \<longrightarrow> q \<in> set (paths st')"
    by (auto simp: p)
  moreover have "\<forall>p\<in>set (paths st'). wants cm (basename p) \<longrightarrow> p \<in> set (paths st) \<and> p \<noteq> f"
    using nw b by (auto simp: p)
  ultimately show ?thesis by blast
qed

lemma reconcile_files_leaves:
  assumes ok: "\<And>src dst. rename_ok e src dst"
    and nosep: "\<forall>c\<in>snd ` set cm. CHR ''/'' \<notin> set c"
  shows "reconcile_files e cm (st, n) rem = Some (st1, n1) \<Longrightarrow> distinct (paths st) \<Longrightarrow>
    distinct rem \<Longrightarrow> set rem \<subseteq> set (paths st) \<Longrightarrow>
    \<forall>p\<in>set (paths st1). wants cm (basename p) \<longrightarrow> p \<in> set (paths st) \<and> p \<notin> set rem"
proof (induction rem arbitrary: st n)
  case Nil
  then show ?case by simp
next
  case (Cons f rest)
  from Cons.prems(1) obtain st' n' where
    step: "reconcile_file e cm (st, n) f = Some (st', n')"
    and more: "reconcile_files e cm (st', n') rest = Some (st1, n1)"
    by (auto split: option.splits)
  from Cons.prems have mem: "f \<in> set (paths st)" by simp
  from reconcile_file_step [OF ok nosep step mem Cons.prems(2)]
  have d: "distinct (paths st')"
    and keep: "\<forall>q\<in>set (paths st). q \<noteq> f \<longrightarrow> q \<in> set (paths st')"
    and w: "\<forall>p\<in>set (paths st'). wants cm (basename p) \<longrightarrow> p \<in> set (paths st) \<and> p \<noteq> f"
    by blast+
  from Cons.prems(3) have dr: "distinct rest" and fr: "f \<notin> set rest" by simp_all
  have sub: "set rest \<subseteq> set (paths st')"
    using Cons.prems(4) keep fr by auto
  from Cons.IH [OF more d dr sub] w show ?case by auto
qed

lemma reconcile_files_noop:
  "\<forall>p\<in>set ps. \<not> wants cm (basename p) \<Longrightarrow> reconcile_files e cm (st, n) ps = Some (st, n)"
  by (induction ps) (simp_all add: reconcile_file_skips)

text \<open>
  Where the pass is idempotent: when the operating system refuses no rename, no country
  name holds a path separator, the tree lists each path once and the first run returns,
  a second run on the resulting tree changes nothing and updates 0 files.
\<close>

lemma reconciliation_idempotent_when_it_returns:
  assumes ok: "\<And>src dst. rename_ok e src dst"
    and nosep: "\<forall>c\<in>snd ` set cm. CHR ''/'' \<notin> set c"
    and dist: "distinct (paths st)"
    and first: "apply_country_mapping_to_existing_files e st cm = Some (st1, n)"
  shows "apply_country_mapping_to_existing_files e st1 cm = Some (st1, 0)"
proof (cases "cm = [] \<or> filter (\<lambda>p. is_pdf_name (basename p)) (paths st) = []")
  case True
  with first have "st1 = st"
    by (auto simp: apply_country_mapping_to_existing_files_def Let_def split: if_splits)
  with True show ?thesis
    by (auto simp: apply_country_mapping_to_existing_files_def Let_def split: if_splits)
next
  case False
  let ?pdfs = "filter (\<lambda>p. is_pdf_name (basename p)) (paths st)"
  from False first have run: "reconcile_files e cm (st, 0) ?pdfs = Some (st1, n)"
    by (simp add: apply_country_mapping_to_existing_files_def Let_def)
  have "\<forall>p\<in>set (paths st1). wants cm (basename p) \<longrightarrow> p \<in> set (paths st) \<and> p \<notin> set ?pdfs"
    using reconcile_files_leaves [OF ok nosep run dist] dist by auto
  then have "\<forall>p\<in>set (filter (\<lambda>p. is_pdf_name (basename p)) (paths st1)).
      \<not> wants cm (basename p)"
    by auto
  from reconcile_files_noop [OF this, of e st1 0] False show ?thesis
    by (simp add: apply_country_mapping_to_existing_files_def Let_def)
qed

section \<open>Where the duplicate loop of the pass does terminate\<close>

text \<open>The branch of the loop that keeps an existing counter, lines 1032 to 1037.\<close>

definition keeps_counter :: "string list \<Rightarrow> bool" where
  "keeps_counter parts =
     (1 < length parts \<and> endswith_pdf (last parts)
      \<and> isdigit (takeWhile (\<lambda>c. c \<noteq> CHR ''.'') (last parts)))"

text \<open>The candidate that the other two branches build for a counter.\<close>

definition numbered_candidate :: "string \<Rightarrow> string list \<Rightarrow> string \<Rightarrow> nat \<Rightarrow> string" where
  "numbered_candidate dir parts country c =
     join dir (join_parts ([hd parts, country]
       @ (if 1 < length parts \<and> endswith_pdf (last parts) then butlast (tl parts) else tl parts)
       @ [fmt02 c @ ''.pdf'']))"

lemma join_parts_snoc: "xs \<noteq> [] \<Longrightarrow> join_parts (xs @ [z]) = join_parts xs @ ''_'' @ z"
  by (induction xs rule: join_parts.induct) auto

lemma numbered_candidate_inject:
  assumes "numbered_candidate dir parts country j = numbered_candidate dir parts country k"
  shows "j = k"
proof -
  let ?Y = "if 1 < length parts \<and> endswith_pdf (last parts) then butlast (tl parts) else tl parts"
  let ?N = "join_parts (hd parts # country # ?Y)"
  have shape: "numbered_candidate dir parts country c
      = join dir (?N @ CHR ''_'' # fmt02 c @ ''.pdf'')" for c
    using join_parts_snoc [of "hd parts # country # ?Y" "fmt02 c @ ''.pdf''"]
    by (simp add: numbered_candidate_def)
  from assms have "join dir (?N @ CHR ''_'' # fmt02 j @ ''.pdf'')
      = join dir (?N @ CHR ''_'' # fmt02 k @ ''.pdf'')"
    by (simp only: shape)
  then show ?thesis
    using join_cand_inject [of fmt02 dir ?N j "''.pdf''" k] fmt02_inject by blast
qed

lemma dedup_loop_step:
  assumes "\<not> keeps_counter parts"
  shows "dedup_loop fs f dir parts country nf np c =
    (if path_exists fs np \<and> np \<noteq> f
     then dedup_loop fs f dir parts country
            (join_parts ([hd parts, country]
               @ (if 1 < length parts \<and> endswith_pdf (last parts) then butlast (tl parts)
                  else tl parts)
               @ [fmt02 c @ ''.pdf'']))
            (numbered_candidate dir parts country c) (c + 1)
     else Some (nf, np))"
  using assms
  by (subst dedup_loop.simps) (auto simp: keeps_counter_def numbered_candidate_def Let_def)

lemma dedup_loop_from_candidate:
  assumes "\<not> keeps_counter parts"
  shows "\<exists>y. dedup_loop fs f dir parts country nf (numbered_candidate dir parts country c)
    (c + 1) = Some y"
proof (induction "card {k. c \<le> k \<and> numbered_candidate dir parts country k \<in> set fs}"
    arbitrary: c nf rule: less_induct)
  case less
  let ?cand = "numbered_candidate dir parts country"
  show ?case
  proof (cases "path_exists fs (?cand c) \<and> ?cand c \<noteq> f")
    case False
    then show ?thesis
      by (subst dedup_loop_step [OF assms]) auto
  next
    case True
    then have mem: "?cand c \<in> set fs" by (simp add: path_exists_def)
    have "card {k. Suc c \<le> k \<and> ?cand k \<in> set fs} < card {k. c \<le> k \<and> ?cand k \<in> set fs}"
      using card_cands_less [of ?cand c fs] numbered_candidate_inject mem by blast
    from less [of "Suc c", OF this] obtain y where
      "dedup_loop fs f dir parts country
         (join_parts ([hd parts, country]
            @ (if 1 < length parts \<and> endswith_pdf (last parts) then butlast (tl parts)
               else tl parts)
            @ [fmt02 (c + 1) @ ''.pdf'']))
         (?cand (Suc c)) (Suc c + 1) = Some y"
      by blast
    with True show ?thesis
      by (subst dedup_loop_step [OF assms]) simp
  qed
qed

text \<open>
  Unless the name ends in a counter that the loop keeps, the loop returns for every
  directory, file name and country.
\<close>

lemma dedup_loop_returns:
  assumes "\<not> keeps_counter parts"
  shows "\<exists>y. dedup_loop fs f dir parts country nf np c = Some y"
proof (cases "path_exists fs np \<and> np \<noteq> f")
  case False
  then show ?thesis
    by (subst dedup_loop_step [OF assms]) auto
next
  case True
  with dedup_loop_from_candidate [OF assms, of fs f dir country _ c] show ?thesis
    by (subst dedup_loop_step [OF assms]) simp
qed

end
